theory Spec2Isabelle
  imports Main
begin

section \<open>Common modelling conventions\<close>

text \<open>
  The TypeScript sources are embedded as pure HOL functions.  An \<open>await\<close>ed call that may
  reject, and a statement that may throw, returns an \<open>outcome\<close>: \<open>Throws msg\<close> for the
  raised \<open>Error\<close> with its message, \<open>Returns v\<close> for the value.  A JavaScript object used
  as a dictionary is the list of its own properties in enumeration order
  (\<open>Object.entries\<close>).
\<close>

datatype 'a outcome = Throws string | Returns 'a

section \<open>JavaScript built-ins used by the services\<close>

text \<open>
  Values of the upstream daily document and of the day endpoint's response
  (\<open>Record<string, string | number>\<close>).  Numbers are integers: the scores are ranks and
  sums of ranks, far below \<open>2^53\<close>, where the arithmetic of doubles is exact.
\<close>

datatype jsval = JStr string | JNum int

type_synonym 'v js_object = "(string \<times> 'v) list"

text \<open>
  \<open>Number(key)\<close> is not \<open>NaN\<close> exactly when the string, with white space trimmed, is
  empty or matches the grammar \<open>StrNumericLiteral\<close> of ECMAScript: an optionally signed
  decimal literal (with \<open>Infinity\<close>, a fraction, an exponent) or an unsigned binary, octal
  or hexadecimal integer literal.  Strings are byte strings; the white space recognised
  is the ASCII part of \<open>StrWhiteSpaceChar\<close>.
\<close>

definition is_digit :: "char \<Rightarrow> bool" where
  "is_digit c \<longleftrightarrow> c \<in> set ''0123456789''"

definition is_hex_digit :: "char \<Rightarrow> bool" where
  "is_hex_digit c \<longleftrightarrow> c \<in> set ''0123456789abcdefABCDEF''"

definition is_octal_digit :: "char \<Rightarrow> bool" where
  "is_octal_digit c \<longleftrightarrow> c \<in> set ''01234567''"

definition is_binary_digit :: "char \<Rightarrow> bool" where
  "is_binary_digit c \<longleftrightarrow> c \<in> set ''01''"

definition is_white_space :: "char \<Rightarrow> bool" where
  "is_white_space c \<longleftrightarrow>
     c \<in> set [CHR 0x09, CHR 0x0A, CHR 0x0B, CHR 0x0C, CHR 0x0D, CHR 0x20]"

definition trim :: "string \<Rightarrow> string" where
  "trim s = rev (dropWhile is_white_space (rev (dropWhile is_white_space s)))"

definition strip_sign :: "string \<Rightarrow> string" where
  "strip_sign s =
     (case s of [] \<Rightarrow> [] | c # r \<Rightarrow> if c = CHR ''+'' \<or> c = CHR ''-'' then r else s)"

definition exponent_part_opt :: "string \<Rightarrow> bool" where
  "exponent_part_opt s =
     (case s of
        [] \<Rightarrow> True
      | c # r \<Rightarrow> (c = CHR ''e'' \<or> c = CHR ''E'') \<and>
                 strip_sign r \<noteq> [] \<and> list_all is_digit (strip_sign r))"

definition unsigned_decimal_literal :: "string \<Rightarrow> bool" where
  "unsigned_decimal_literal s =
     (s = ''Infinity'' \<or>
      (let ip = takeWhile is_digit s; r = dropWhile is_digit s
       in case r of
            [] \<Rightarrow> ip \<noteq> []
          | c # r' \<Rightarrow>
              if c = CHR ''.''
              then (ip \<noteq> [] \<or> takeWhile is_digit r' \<noteq> []) \<and>
                   exponent_part_opt (dropWhile is_digit r')
              else ip \<noteq> [] \<and> exponent_part_opt r))"

definition non_decimal_integer_literal :: "string \<Rightarrow> bool" where
  "non_decimal_integer_literal s =
     (case s of
        c0 # c1 # r \<Rightarrow>
          c0 = CHR ''0'' \<and> r \<noteq> [] \<and>
          ((c1 = CHR ''x'' \<or> c1 = CHR ''X'') \<and> list_all is_hex_digit r \<or>
           (c1 = CHR ''o'' \<or> c1 = CHR ''O'') \<and> list_all is_octal_digit r \<or>
           (c1 = CHR ''b'' \<or> c1 = CHR ''B'') \<and> list_all is_binary_digit r)
      | _ \<Rightarrow> False)"

text \<open>\<open>isNaN(Number(s))\<close> for a string \<open>s\<close>.\<close>

definition isNaN_Number :: "string \<Rightarrow> bool" where
  "isNaN_Number s =
     (let t = trim s
      in \<not> (t = [] \<or> non_decimal_integer_literal t \<or> unsigned_decimal_literal (strip_sign t)))"

text \<open>\<open>String.prototype.toLowerCase\<close> on the ASCII letters.\<close>

definition char_toLowerCase :: "char \<Rightarrow> char" where
  "char_toLowerCase c =
     (let n = (of_char c :: nat) in if 65 \<le> n \<and> n \<le> 90 then char_of (n + 32) else c)"

definition toLowerCase :: "string \<Rightarrow> string" where
  "toLowerCase s = map char_toLowerCase s"

text \<open>
  An ordinary object enumerates its own properties with the array-index keys first, in
  ascending numeric order, then the other string keys in the order of their creation.  An
  array index is the canonical decimal string of an integer below \<open>2^32 - 1\<close>.
\<close>

definition index_value :: "string \<Rightarrow> int" where
  "index_value s = foldl (\<lambda>n c. 10 * n + (of_char c - 48)) 0 s"

definition is_array_index :: "string \<Rightarrow> bool" where
  "is_array_index s \<longleftrightarrow>
     s \<noteq> [] \<and> list_all is_digit s \<and> (hd s = CHR ''0'' \<longrightarrow> s = ''0'') \<and>
     index_value s < 4294967295"

definition precedes :: "string \<Rightarrow> string \<times> 'v \<Rightarrow> bool" where
  "precedes k p \<longleftrightarrow> is_array_index (fst p) \<and> index_value (fst p) < index_value k"

text \<open>
  The assignment \<open>obj[k] = v\<close> on the enumeration list: an existing property keeps its
  place, a new array index goes after the smaller array indices, any other new key goes
  last.  (Keys are never names inherited from \<open>Object.prototype\<close>: repository
  identifiers contain a slash.)
\<close>

definition obj_set :: "'v js_object \<Rightarrow> string \<Rightarrow> 'v \<Rightarrow> 'v js_object" where
  "obj_set obj k v =
     (if k \<in> set (map fst obj)
      then map (\<lambda>p. if fst p = k then (k, v) else p) obj
      else if is_array_index k
      then takeWhile (precedes k) obj @ (k, v) # dropWhile (precedes k) obj
      else obj @ [(k, v)])"

text \<open>\<open>obj[k]\<close>: \<open>None\<close> is \<open>undefined\<close>.\<close>

definition obj_get :: "'v js_object \<Rightarrow> string \<Rightarrow> 'v option" where
  "obj_get obj k = map_of obj k"

text \<open>\<open>Object.fromEntries(entries)\<close>.\<close>

definition fromEntries :: "(string \<times> 'v) list \<Rightarrow> 'v js_object" where
  "fromEntries es = fold (\<lambda>p obj. obj_set obj (fst p) (snd p)) es []"

text \<open>
  \<open>xs.slice(0, n)\<close> for an integer \<open>n\<close>: a negative \<open>n\<close> counts from the end.
\<close>

definition slice0 :: "'a list \<Rightarrow> int \<Rightarrow> 'a list" where
  "slice0 xs n = (if n < 0 then take (nat (int (length xs) + n)) xs else take (nat n) xs)"

text \<open>
  The outcome of \<open>await fetch(url)\<close> followed by \<open>await response.json()\<close>: the fetch
  rejects (network error), or it resolves to a response with a status code, a status
  text and a body whose JSON parse throws or returns a value.
\<close>

datatype 'a fetched = Rejected string | Responded nat string "'a outcome"

definition response_ok :: "nat \<Rightarrow> bool" where
  "response_ok status \<longleftrightarrow> 200 \<le> status \<and> status \<le> 299"

section \<open>Day aggregator (backend/src/day/dayService.ts)\<close>

text \<open>
  \<open>DayService.formatResponse(data, limit)\<close>.  \<open>data\<close> is given by \<open>Object.entries(data)\<close>;
  \<open>limit\<close> is \<open>None\<close> for \<open>undefined\<close> and for \<open>NaN\<close> (both falsy, as is the number 0).
  \<open>assign_score\<close> is the callback of the \<open>forEach\<close>: the loop indexes the limited
  entries from 0, and an entry whose value is not a string is skipped but counted.
\<close>

definition assign_score ::
  "nat \<Rightarrow> (string \<times> jsval) \<times> nat \<Rightarrow> int js_object \<Rightarrow> int js_object" where
  "assign_score totalRepos p result =
     (case p of ((index, repoName), i) \<Rightarrow>
        (case repoName of
           JStr name \<Rightarrow> obj_set result (toLowerCase name) (int totalRepos - int i)
         | JNum _ \<Rightarrow> result))"

definition formatResponse :: "jsval js_object \<Rightarrow> int option \<Rightarrow> int js_object" where
  "formatResponse data limit =
     (let repoEntries = filter (\<lambda>(key, _). \<not> isNaN_Number key) data;
          limitedEntries =
            (case limit of
               None \<Rightarrow> repoEntries
             | Some l \<Rightarrow> if l \<noteq> 0 then slice0 repoEntries l else repoEntries);
          totalRepos = length limitedEntries
      in fold (assign_score totalRepos) (zip limitedEntries [0..<totalRepos]) [])"

text \<open>
  \<open>DayService.applyLimit(data, limit)\<close> of the earlier revision of the day service
  (src/unnamed/part_008), which truncates the cached document itself.
\<close>

definition applyLimit :: "jsval js_object \<Rightarrow> int option \<Rightarrow> jsval js_object" where
  "applyLimit data limit =
     (case limit of
        None \<Rightarrow> data
      | Some l \<Rightarrow> if l = 0 then data else fromEntries (slice0 data l))"

text \<open>
  The lists that are enumerations of an object: distinct keys, and whenever a key is an
  array index, every earlier key is a smaller array index.
\<close>

definition enum_before :: "string \<times> 'v \<Rightarrow> string \<times> 'v \<Rightarrow> bool" where
  "enum_before p q \<longleftrightarrow>
     (is_array_index (fst q) \<longrightarrow>
        is_array_index (fst p) \<and> index_value (fst p) < index_value (fst q))"

definition enumeration :: "'v js_object \<Rightarrow> bool" where
  "enumeration obj \<longleftrightarrow> distinct (map fst obj) \<and> sorted_wrt enum_before obj"

section \<open>Cache store (starsRefactor/src/day/dayStorage.ts)\<close>

text \<open>
  \<open>DayStorage\<close> is the storage class of the day service.  The sources hold it in the
  starsRefactor tree; the day service of the backend tree imports a class of the same
  name and calls the same three methods.
\<close>

text \<open>
  The KV namespace \<open>GITHUB_STARS_CACHE\<close>.  A stored string is the empty string (which
  is falsy), another text that \<open>JSON.parse\<close> rejects, or the JSON text of a value.  Each operation may reject with a message
  (an I/O error of the store); the three \<open>rejects\<close> functions say for which keys.  A
  successful \<open>put\<close> replaces the entry, a successful \<open>delete\<close> removes it.  Expiry is
  not modelled: a stored entry stays until it is overwritten or deleted.
\<close>

datatype 'v stored = EmptyText | Malformed | Json 'v

record 'v kv_namespace =
  kv_entries :: "string \<Rightarrow> 'v stored option"
  get_rejects :: "string \<Rightarrow> string option"
  put_rejects :: "string \<Rightarrow> string option"
  delete_rejects :: "string \<Rightarrow> string option"

definition kv_get :: "'v kv_namespace \<Rightarrow> string \<Rightarrow> 'v stored option outcome" where
  "kv_get kv key =
     (case get_rejects kv key of Some msg \<Rightarrow> Throws msg | None \<Rightarrow> Returns (kv_entries kv key))"

definition kv_put ::
  "'v kv_namespace \<Rightarrow> string \<Rightarrow> 'v stored \<Rightarrow> unit outcome \<times> 'v kv_namespace" where
  "kv_put kv key text =
     (case put_rejects kv key of
        Some msg \<Rightarrow> (Throws msg, kv)
      | None \<Rightarrow> (Returns (), kv\<lparr>kv_entries := (kv_entries kv)(key \<mapsto> text)\<rparr>))"

definition kv_delete :: "'v kv_namespace \<Rightarrow> string \<Rightarrow> unit outcome \<times> 'v kv_namespace" where
  "kv_delete kv key =
     (case delete_rejects kv key of
        Some msg \<Rightarrow> (Throws msg, kv)
      | None \<Rightarrow> (Returns (), kv\<lparr>kv_entries := (kv_entries kv)(key := None)\<rparr>))"

text \<open>
  \<open>DayStorage.getCachedData\<close>: a falsy value (\<open>null\<close>, the empty string) gives
  \<open>null\<close>, and the \<open>catch\<close> turns a rejected \<open>get\<close> and a failed \<open>JSON.parse\<close> into
  \<open>null\<close>.
\<close>

definition getCachedData :: "'v kv_namespace \<Rightarrow> string \<Rightarrow> 'v option outcome" where
  "getCachedData kv cacheKey =
     (case kv_get kv cacheKey of
        Throws err \<Rightarrow> Returns None
      | Returns None \<Rightarrow> Returns None
      | Returns (Some EmptyText) \<Rightarrow> Returns None
      | Returns (Some Malformed) \<Rightarrow> Returns None
      | Returns (Some (Json cachedData)) \<Rightarrow> Returns (Some cachedData))"

text \<open>
  \<open>DayStorage.cacheData\<close> and \<open>DayStorage.deleteCachedData\<close>: the \<open>catch\<close> logs and
  throws a new error.
\<close>

definition cacheData ::
  "'v kv_namespace \<Rightarrow> string \<Rightarrow> 'v \<Rightarrow> unit outcome \<times> 'v kv_namespace" where
  "cacheData kv cacheKey data =
     (case kv_put kv cacheKey (Json data) of
        (Throws err, kv') \<Rightarrow> (Throws ''Failed to cache data'', kv')
      | (Returns u, kv') \<Rightarrow> (Returns (), kv'))"

definition deleteCachedData ::
  "'v kv_namespace \<Rightarrow> string \<Rightarrow> unit outcome \<times> 'v kv_namespace" where
  "deleteCachedData kv cacheKey =
     (case kv_delete kv cacheKey of
        (Throws err, kv') \<Rightarrow> (Throws ''Failed to delete cached data'', kv')
      | (Returns u, kv') \<Rightarrow> (Returns (), kv'))"

section \<open>Day service (backend/src/day/dayService.ts)\<close>

text \<open>
  \<open>DayService.fetchAndAggregateData\<close>: every failure ends in the \<open>catch\<close>, which returns
  the empty object.
\<close>

definition fetchAndAggregateData ::
  "(string \<Rightarrow> jsval js_object fetched) \<Rightarrow> string \<Rightarrow> jsval js_object" where
  "fetchAndAggregateData fetch date =
     (case fetch (''https://activity.forgithub.com/top100-starred-in-'' @ date @ ''.json'') of
        Rejected err \<Rightarrow> []
      | Responded status statusText body \<Rightarrow>
          if \<not> response_ok status then []
          else (case body of Throws err \<Rightarrow> [] | Returns responseData \<Rightarrow> responseData))"

text \<open>
  \<open>DayService.getDailyStars\<close>.  \<open>sortEntries\<close> stands for
  \<open>Object.entries(repoData).sort(([, a], [, b]) => b - a)\<close>: the comparator subtracts
  values that are mostly strings, so its result is \<open>NaN\<close> for them and the order is the
  engine's; the model takes the sort as a parameter.  A rejection of \<open>cacheData\<close> is not
  caught here.
\<close>

definition getDailyStars ::
  "(jsval js_object \<Rightarrow> jsval js_object) \<Rightarrow> (string \<Rightarrow> jsval js_object fetched) \<Rightarrow>
   jsval js_object kv_namespace \<Rightarrow> string \<Rightarrow> int option \<Rightarrow>
   int js_object outcome \<times> jsval js_object kv_namespace" where
  "getDailyStars sortEntries fetch kv date limit =
     (let cacheKey = ''v4-'' @ date
      in case getCachedData kv cacheKey of
           Throws err \<Rightarrow> (Throws err, kv)
         | Returns (Some cachedData) \<Rightarrow> (Returns (formatResponse cachedData limit), kv)
         | Returns None \<Rightarrow>
             (let repoData = fetchAndAggregateData fetch date
              in if length repoData = 0
                 then (case cacheData kv cacheKey [] of
                         (Throws err, kv') \<Rightarrow> (Throws err, kv')
                       | (Returns u, kv') \<Rightarrow> (Returns [], kv'))
                 else (let sortedEntries = sortEntries repoData;
                           final = fromEntries sortedEntries
                       in case cacheData kv cacheKey final of
                            (Throws err, kv') \<Rightarrow> (Throws err, kv')
                          | (Returns u, kv') \<Rightarrow> (Returns (formatResponse final limit), kv'))))"

section \<open>Window aggregators (backend/src/week/weekService.ts, src/unnamed/part_004)\<close>

text \<open>\<open>typeof score === 'number' ? score : 0\<close>\<close>

definition numericScore :: "jsval \<Rightarrow> int" where
  "numericScore score = (case score of JNum n \<Rightarrow> n | JStr _ \<Rightarrow> 0)"

text \<open>\<open>aggregatedData[repo] || 0\<close>: \<open>undefined\<close> and \<open>0\<close> are falsy.\<close>

definition or_zero :: "int option \<Rightarrow> int" where
  "or_zero x = (case x of None \<Rightarrow> 0 | Some a \<Rightarrow> if a = 0 then 0 else a)"

text \<open>The body of the inner loop over \<open>Object.entries(data)\<close>.\<close>

definition add_score :: "string \<times> jsval \<Rightarrow> int js_object \<Rightarrow> int js_object" where
  "add_score p aggregatedData =
     (case p of (repo, score) \<Rightarrow>
        obj_set aggregatedData repo (or_zero (obj_get aggregatedData repo) + numericScore score))"

text \<open>
  The body of the loop over the URLs: a rejected fetch and a body that does not parse
  land in the \<open>catch\<close>, a response that is not ok is skipped by \<open>continue\<close>; in all three
  cases the aggregate is left as it is.
\<close>

definition process_url ::
  "(string \<Rightarrow> jsval js_object fetched) \<Rightarrow> string \<Rightarrow> int js_object \<Rightarrow> int js_object" where
  "process_url fetch url aggregatedData =
     (case fetch url of
        Rejected err \<Rightarrow> aggregatedData
      | Responded status statusText body \<Rightarrow>
          if \<not> response_ok status then aggregatedData
          else (case body of
                  Throws err \<Rightarrow> aggregatedData
                | Returns data \<Rightarrow> fold add_score data aggregatedData))"

text \<open>
  \<open>getLastWeekData\<close> and \<open>getLastMonthData\<close> differ in the number of days only.
  \<open>dayUrl i\<close> is the URL built from the local calendar date of the current time minus
  \<open>i\<close> days.  The comparator \<open>b - a\<close> on numbers is consistent, so the (stable) sort is an
  insertion sort by descending score.
\<close>

definition getLastDaysData ::
  "nat \<Rightarrow> (nat \<Rightarrow> string) \<Rightarrow> (string \<Rightarrow> jsval js_object fetched) \<Rightarrow> int js_object" where
  "getLastDaysData n dayUrl fetch =
     (let urls = map dayUrl [0..<n];
          aggregatedData = fold (process_url fetch) urls [];
          sortedEntries = sort_key (\<lambda>(repo, a). - a) aggregatedData
      in fromEntries sortedEntries)"

definition getLastWeekData ::
  "(nat \<Rightarrow> string) \<Rightarrow> (string \<Rightarrow> jsval js_object fetched) \<Rightarrow> int js_object" where
  "getLastWeekData = getLastDaysData 7"

definition getLastMonthData ::
  "(nat \<Rightarrow> string) \<Rightarrow> (string \<Rightarrow> jsval js_object fetched) \<Rightarrow> int js_object" where
  "getLastMonthData = getLastDaysData 30"

text \<open>
  The reference the aggregators are compared with (from the specification's wording,
  not from the code): the per-day score map of a fetch, \<open>None\<close> when the fetch failed; a
  repository's score in it, 0 when the fetch failed, the repository is absent or its
  value is not a number; and the score-wise sum over a list of days, defined for the
  repositories that occur in some day's map.
\<close>

definition spec_day_map :: "jsval js_object fetched \<Rightarrow> jsval js_object option" where
  "spec_day_map r =
     (case r of
        Rejected err \<Rightarrow> None
      | Responded status statusText body \<Rightarrow>
          if response_ok status
          then (case body of Throws err \<Rightarrow> None | Returns data \<Rightarrow> Some data)
          else None)"

definition spec_day_score :: "jsval js_object fetched \<Rightarrow> string \<Rightarrow> int" where
  "spec_day_score r repo =
     (case spec_day_map r of
        None \<Rightarrow> 0
      | Some data \<Rightarrow> (case map_of data repo of Some (JNum n) \<Rightarrow> n | _ \<Rightarrow> 0))"

definition spec_day_has :: "jsval js_object fetched \<Rightarrow> string \<Rightarrow> bool" where
  "spec_day_has r repo =
     (case spec_day_map r of None \<Rightarrow> False | Some data \<Rightarrow> repo \<in> set (map fst data))"

definition spec_window_sum :: "jsval js_object fetched list \<Rightarrow> string \<Rightarrow> int option" where
  "spec_window_sum days repo =
     (if list_ex (\<lambda>r. spec_day_has r repo) days
      then Some (sum_list (map (\<lambda>r. spec_day_score r repo) days))
      else None)"

text \<open>A fetch that failed with a network error or a status outside 200..299.\<close>

definition fetch_failed :: "'a fetched \<Rightarrow> bool" where
  "fetch_failed r =
     (case r of Rejected err \<Rightarrow> True | Responded status statusText body \<Rightarrow> \<not> response_ok status)"

text \<open>
  A sample run: day 0 and day 2 answer, day 1 answers with status 500, the older days
  are unreachable.
\<close>

definition sample_dayUrl :: "nat \<Rightarrow> string" where
  "sample_dayUrl i = ''http://127.0.0.1:8787/'' @ replicate i (CHR ''d'')"

definition sample_fetch :: "string \<Rightarrow> jsval js_object fetched" where
  "sample_fetch url =
     (if url = sample_dayUrl 0
      then Responded 200 ''OK'' (Returns [(''a/b'', JNum 2), (''c/d'', JNum 1)])
      else if url = sample_dayUrl 1
      then Responded 500 ''Internal Server Error'' (Throws ''Unexpected token'')
      else if url = sample_dayUrl 2
      then Responded 200 ''OK'' (Returns [(''e/f'', JNum 2), (''a/b'', JNum 1)])
      else Rejected ''fetch failed'')"

section \<open>Enrichment (backend/src/utils/repositoryEnricher.ts, src/unnamed/part_001)\<close>

text \<open>
  An entry of \<open>EnrichedRepositoryData\<close>; \<open>'i\<close> is \<open>RepositoryInfo\<close>.  \<open>info = None\<close> is
  \<open>null\<close>, \<open>error = None\<close> an absent \<open>error\<close> property.
\<close>

record 'i enriched =
  score :: int
  info :: "'i option"
  error :: "string option"

datatype timeframe = Day | Week | Month

fun timeframe_name :: "timeframe \<Rightarrow> string" where
  "timeframe_name Day = ''day''"
| "timeframe_name Week = ''week''"
| "timeframe_name Month = ''month''"

record cache_config =
  ttl :: nat
  timeframe :: timeframe

text \<open>\<open>error.message || "Unknown error occurred"\<close>\<close>

definition error_message :: "string \<Rightarrow> string" where
  "error_message msg = (if msg = [] then ''Unknown error occurred'' else msg)"

text \<open>The truthiness of \<open>repoData.error\<close>: absent and the empty string are falsy.\<close>

definition truthy :: "string option \<Rightarrow> bool" where
  "truthy e = (case e of None \<Rightarrow> False | Some msg \<Rightarrow> msg \<noteq> [])"

fun show_nat :: "nat \<Rightarrow> string" where
  "show_nat n =
     (if n < 10 then [char_of (48 + n)]
      else show_nat (n div 10) @ [char_of (48 + n mod 10)])"

text \<open>\<open>RepositoryEnricher.getFromCache\<close>\<close>

definition getFromCache :: "'v kv_namespace \<Rightarrow> string \<Rightarrow> 'v option outcome" where
  "getFromCache kv key =
     (case kv_get kv key of
        Throws err \<Rightarrow> Returns None
      | Returns None \<Rightarrow> Returns None
      | Returns (Some EmptyText) \<Rightarrow> Returns None
      | Returns (Some Malformed) \<Rightarrow> Returns None
      | Returns (Some (Json cachedValue)) \<Rightarrow> Returns (Some cachedValue))"

text \<open>\<open>RepositoryEnricher.storeInCache\<close>: the \<open>catch\<close> only logs.\<close>

definition storeInCache ::
  "'v kv_namespace \<Rightarrow> string \<Rightarrow> 'v \<Rightarrow> nat \<Rightarrow> unit outcome \<times> 'v kv_namespace" where
  "storeInCache kv key data ttl' =
     (case kv_put kv key (Json data) of
        (Throws err, kv') \<Rightarrow> (Returns (), kv')
      | (Returns u, kv') \<Rightarrow> (Returns (), kv'))"

text \<open>The URL of the metadata service and the cache key of a repository.\<close>

definition detailsUrl :: "string \<Rightarrow> string" where
  "detailsUrl repoFullName = ''https://cache.forgithub.com/'' @ repoFullName @ ''/details''"

definition repoInfoCacheKey :: "cache_config \<Rightarrow> string \<Rightarrow> string" where
  "repoInfoCacheKey cacheConfig repoFullName =
     ''repo_info:'' @ timeframe_name (timeframe cacheConfig) @ '':'' @ repoFullName"

text \<open>
  \<open>RepositoryEnricher.fetchRepositoryInfo\<close>.  The body of a successful response is any
  JSON value, \<open>null\<close> included (\<open>None\<close>).
\<close>

definition fetchRepositoryInfo ::
  "(string \<Rightarrow> 'i option fetched) \<Rightarrow> string \<Rightarrow> int \<Rightarrow> 'i enriched outcome" where
  "fetchRepositoryInfo fetch repoFullName score' =
     (case fetch (detailsUrl repoFullName) of
        Rejected msg \<Rightarrow>
          Returns \<lparr>score = score', info = None, error = Some (error_message msg)\<rparr>
      | Responded status statusText body \<Rightarrow>
          if \<not> response_ok status
          then Returns \<lparr>score = score', info = None,
                 error = Some (error_message (''Failed to fetch repository info: '' @
                            show_nat status @ '' '' @ statusText))\<rparr>
          else (case body of
                  Throws msg \<Rightarrow>
                    Returns \<lparr>score = score', info = None, error = Some (error_message msg)\<rparr>
                | Returns repoInfo \<Rightarrow>
                    Returns \<lparr>score = score', info = repoInfo, error = None\<rparr>))"

text \<open>
  \<open>RepositoryEnricher.getRepositoryInfo\<close>.  Its body is one \<open>try\<close> whose \<open>catch\<close> returns
  an entry, so it returns an entry in every case, together with the store as it leaves
  it.
\<close>

definition getRepositoryInfo ::
  "'i enriched kv_namespace \<Rightarrow> (string \<Rightarrow> 'i option fetched) \<Rightarrow> string \<Rightarrow> int \<Rightarrow>
   cache_config \<Rightarrow> 'i enriched \<times> 'i enriched kv_namespace" where
  "getRepositoryInfo kv fetch repoFullName score' cacheConfig =
     (let cacheKey = repoInfoCacheKey cacheConfig repoFullName
      in case getFromCache kv cacheKey of
           Throws msg \<Rightarrow>
             (\<lparr>score = score', info = None, error = Some (error_message msg)\<rparr>, kv)
         | Returns (Some cachedData) \<Rightarrow> (cachedData\<lparr>score := score'\<rparr>, kv)
         | Returns None \<Rightarrow>
             (case fetchRepositoryInfo fetch repoFullName score' of
                Throws msg \<Rightarrow>
                  (\<lparr>score = score', info = None, error = Some (error_message msg)\<rparr>, kv)
              | Returns repoInfo \<Rightarrow>
                  if info repoInfo \<noteq> None \<and> \<not> truthy (error repoInfo)
                  then (case storeInCache kv cacheKey repoInfo (ttl cacheConfig) of
                          (Throws msg, kv') \<Rightarrow>
                            (\<lparr>score = score', info = None,
                              error = Some (error_message msg)\<rparr>, kv')
                        | (Returns u, kv') \<Rightarrow> (repoInfo, kv'))
                  else (repoInfo, kv)))"

text \<open>
  \<open>RepositoryEnricher.enrichRepositories\<close>.  The loop starts one call of
  \<open>getRepositoryInfo\<close> per entry of \<open>Object.entries(repoData)\<close>, and the \<open>then\<close>
  callback of a call assigns \<open>enrichedData[repoFullName]\<close> when that call settles.  The
  keys of \<open>enrichedData\<close> are therefore created in the order in which the calls settle,
  which depends on the latencies of the store and of the metadata service and need not be
  the order of the input.  This order is the argument \<open>completion\<close>: the positions of the
  input entries in the order in which their calls settle, a permutation of the positions
  \<open>0, \<dots>, length repoData - 1\<close> (\<open>getRepositoryInfo\<close> never rejects, so every call
  settles and \<open>Promise.all\<close> resolves).  The calls overlap in time; a call reads and writes
  the store only under the cache key of its own repository and the keys of an object are
  pairwise distinct, so the calls are run one after the other, in the order of
  completion.
\<close>

definition completion_order :: "nat list \<Rightarrow> nat \<Rightarrow> bool" where
  "completion_order completion n \<longleftrightarrow> distinct completion \<and> set completion = set [0..<n]"

definition settled :: "nat list \<Rightarrow> 'a list \<Rightarrow> 'a list" where
  "settled completion entries =
     map (\<lambda>i. entries ! i) (filter (\<lambda>i. i < length entries) completion)"

definition enrich_one ::
  "(string \<Rightarrow> 'i option fetched) \<Rightarrow> cache_config \<Rightarrow> string \<times> int \<Rightarrow>
   'i enriched js_object \<times> 'i enriched kv_namespace \<Rightarrow>
   'i enriched js_object \<times> 'i enriched kv_namespace" where
  "enrich_one fetch config p st =
     (case p of (repoFullName, score') \<Rightarrow>
        (case st of (enrichedData, kv) \<Rightarrow>
           (case getRepositoryInfo kv fetch repoFullName score' config of
              (result, kv') \<Rightarrow> (obj_set enrichedData repoFullName result, kv'))))"

definition enrichRepositories ::
  "'i enriched kv_namespace \<Rightarrow> (string \<Rightarrow> 'i option fetched) \<Rightarrow> int js_object \<Rightarrow>
   cache_config option \<Rightarrow> nat list \<Rightarrow> 'i enriched js_object \<times> 'i enriched kv_namespace" where
  "enrichRepositories kv fetch repoData cacheConfig completion =
     (let config = (case cacheConfig of None \<Rightarrow> \<lparr>ttl = 3600, timeframe = Day\<rparr> | Some c \<Rightarrow> c)
      in fold (enrich_one fetch config) (settled completion repoData) ([], kv))"

text \<open>
  From \<open>processResponse\<close> (src/unnamed/part_001): the update of the scores of a cached
  enriched response, and the filter and limit applied to the enriched data.  \<open>limit\<close> is
  \<open>None\<close> for \<open>undefined\<close> and \<open>NaN\<close>.
\<close>

definition refreshScores ::
  "int js_object \<Rightarrow> 'i enriched js_object \<Rightarrow> 'i enriched js_object" where
  "refreshScores data enrichedData =
     map (\<lambda>(repo, e). case obj_get data repo of
                         Some s \<Rightarrow> (repo, e\<lparr>score := s\<rparr>)
                       | None \<Rightarrow> (repo, e)) enrichedData"

definition filterAndLimit ::
  "'i enriched js_object \<Rightarrow> bool \<Rightarrow> int option \<Rightarrow> 'i enriched js_object" where
  "filterAndLimit enrichedData includeErrors limit =
     (let filteredData =
            (if \<not> includeErrors
             then fold (\<lambda>(key, value) acc. obj_set acc key value)
                    (filter (\<lambda>(_, repoData). \<not> truthy (error repoData) \<and> info repoData \<noteq> None)
                       enrichedData) []
             else enrichedData);
          finalData =
            (case limit of
               None \<Rightarrow> filteredData
             | Some l \<Rightarrow> if l \<noteq> 0 \<and> l > 0 then fromEntries (slice0 filteredData l)
                         else filteredData)
      in finalData)"

fun getTtlForTimeframe :: "timeframe \<Rightarrow> nat" where
  "getTtlForTimeframe Day = 3600 * 24"
| "getTtlForTimeframe Week = 7200 * 24"
| "getTtlForTimeframe Month = 14400 * 24"

text \<open>
  \<open>processResponse(response, timeframe)\<close>.  The result is the original response (with
  CORS headers) or a new response whose body is the enriched data.  The flags are the
  query parameters; \<open>responseOk\<close> and \<open>body\<close> are \<open>response.ok\<close> and the outcome of
  \<open>clonedResponse.json()\<close>.  \<open>cacheKey\<close> is the key the function derives from the time
  frame, a hash of the sorted repository names, the limit and the \<open>include_errors\<close> flag;
  \<open>responses\<close> is the view of the KV namespace on the keys of that form and \<open>kv\<close> the
  view on the per-repository keys.  An error thrown by the \<open>get\<close>, by \<open>JSON.parse\<close> or by
  the \<open>put\<close> lands in the inner \<open>catch\<close>, which enriches directly.  \<open>completion\<close> is the
  order in which the calls of the first enrichment of the request settle, \<open>completion'\<close>
  the one of the enrichment that the \<open>catch\<close> runs after a failed \<open>put\<close>.
\<close>

datatype 'i processed = OriginalResponse | EnrichedResponse "'i enriched js_object"

definition processResponse ::
  "bool \<Rightarrow> bool \<Rightarrow> bool \<Rightarrow> int option \<Rightarrow> string \<Rightarrow> timeframe \<Rightarrow> bool \<Rightarrow> int js_object outcome \<Rightarrow>
   'i enriched js_object kv_namespace \<Rightarrow> 'i enriched kv_namespace \<Rightarrow>
   (string \<Rightarrow> 'i option fetched) \<Rightarrow> nat list \<Rightarrow> nat list \<Rightarrow>
   'i processed \<times> 'i enriched js_object kv_namespace \<times> 'i enriched kv_namespace" where
  "processResponse shouldEnrich bypassCache includeErrors limit cacheKey tf responseOk body
     responses kv fetch completion completion' =
     (if \<not> shouldEnrich then (OriginalResponse, responses, kv)
      else if \<not> responseOk then (OriginalResponse, responses, kv)
      else (case body of
              Throws err \<Rightarrow> (OriginalResponse, responses, kv)
            | Returns data \<Rightarrow>
                (let config = Some \<lparr>ttl = getTtlForTimeframe tf, timeframe = tf\<rparr>;
                     direct = (\<lambda>responses' kv' cs.
                                 (fst (enrichRepositories kv' fetch data config cs), responses',
                                  snd (enrichRepositories kv' fetch data config cs)));
                     (enrichedData, responses', kv') =
                       (if \<not> bypassCache
                        then (case kv_get responses cacheKey of
                                Throws err \<Rightarrow> direct responses kv completion
                              | Returns (Some (Json cached)) \<Rightarrow>
                                  (refreshScores data cached, responses, kv)
                              | Returns (Some Malformed) \<Rightarrow> direct responses kv completion
                              | Returns _ \<Rightarrow>
                                  (case enrichRepositories kv fetch data config completion of
                                     (enriched, kv1) \<Rightarrow>
                                       (case kv_put responses cacheKey (Json enriched) of
                                          (Throws err, responses1) \<Rightarrow>
                                            direct responses1 kv1 completion'
                                        | (Returns u, responses1) \<Rightarrow>
                                            (enriched, responses1, kv1))))
                        else direct responses kv completion)
                 in (EnrichedResponse (filterAndLimit enrichedData includeErrors limit),
                     responses', kv'))))"

text \<open>
  The entries the enricher produces and caches: an entry that carries an error message
  has no \<open>info\<close>.
\<close>

definition entry_clean :: "'i enriched \<Rightarrow> bool" where
  "entry_clean e \<longleftrightarrow> (truthy (error e) \<longrightarrow> info e = None)"

definition cache_clean :: "'i enriched kv_namespace \<Rightarrow> bool" where
  "cache_clean kv \<longleftrightarrow> (\<forall>k e. kv_entries kv k = Some (Json e) \<longrightarrow> entry_clean e)"

text \<open>Sample stores and sample services for the concrete runs below.\<close>

definition empty_store :: "'v kv_namespace" where
  "empty_store = \<lparr> kv_entries = (\<lambda>k. None), get_rejects = (\<lambda>k. None),
                   put_rejects = (\<lambda>k. None), delete_rejects = (\<lambda>k. None) \<rparr>"

definition broken_store :: "'v kv_namespace" where
  "broken_store = \<lparr> kv_entries = (\<lambda>k. None), get_rejects = (\<lambda>k. Some ''KV GET failed''),
                    put_rejects = (\<lambda>k. Some ''KV PUT failed''),
                    delete_rejects = (\<lambda>k. Some ''KV DELETE failed'') \<rparr>"

definition sample_upstream :: "string \<Rightarrow> jsval js_object fetched" where
  "sample_upstream url =
     Responded 200 ''OK''
       (Returns [(''0'', JStr ''a/b''), (''1'', JStr ''c/d''), (''date'', JStr ''2025-01-01'')])"

definition metadata_down :: "string \<Rightarrow> string option fetched" where
  "metadata_down url = Responded 503 ''Service Unavailable'' (Throws ''Unexpected token'')"

definition metadata_up :: "string \<Rightarrow> string option fetched" where
  "metadata_up url = Responded 200 ''OK'' (Returns (Some url))"

definition metadata_partial :: "string \<Rightarrow> string option fetched" where
  "metadata_partial url =
     (if url = detailsUrl ''c/d'' then Responded 404 ''Not Found'' (Throws ''Unexpected token'')
      else Responded 200 ''OK'' (Returns (Some url)))"

definition day_config :: cache_config where
  "day_config = \<lparr>ttl = 86400, timeframe = Day\<rparr>"

text \<open>
  A score map of three repositories and the completion order in which the call for the
  last entry settles first and the call for the first entry last.
\<close>

definition sample_scores :: "int js_object" where
  "sample_scores = [(''a/b'', 3), (''c/d'', 2), (''e/f'', 1)]"

definition last_first :: "nat list" where
  "last_first = [2, 1, 0]"

section \<open>Fan-out dispatch client (src/unnamed/part_009)\<close>

text \<open>
  A \<open>RequestJson\<close> (url, body, method, headers) and an item of the input array, which is
  a URL or a \<open>RequestJson\<close>.
\<close>

datatype request_json =
  RequestJson string "string option" "string option" "(string \<times> string) list"

datatype dispatch_item = ItemUrl string | ItemRequest request_json

fun to_request_json :: "dispatch_item \<Rightarrow> request_json" where
  "to_request_json (ItemUrl u) = RequestJson u None None []"
| "to_request_json (ItemRequest r) = r"

text \<open>
  The answer to the POST: the fetch rejects, or there is a response with its \<open>ok\<close> flag,
  its text and its body, \<open>None\<close> when the response has no body and otherwise the chunks
  the reader delivers until \<open>done\<close>, already decoded.
\<close>

datatype stream_response = FetchRejected string | HttpResponse bool string "string list option"

definition newline :: char where
  "newline = CHR 0x0A"

text \<open>\<open>s.split("\n")\<close>: never empty; the last element is what follows the last newline.\<close>

fun split_nl :: "string \<Rightarrow> string list" where
  "split_nl [] = [[]]"
| "split_nl (c # s) =
     (if c = newline then [] # split_nl s
      else (c # hd (split_nl s)) # tl (split_nl s))"

text \<open>\<open>line.startsWith(prefix)\<close>\<close>

definition startsWith :: "string \<Rightarrow> string \<Rightarrow> bool" where
  "startsWith line prefix \<longleftrightarrow> take (length prefix) line = prefix"

text \<open>
  The \<open>for\<close> loop over the complete lines of one chunk.  The state is \<open>resultBuffer\<close> and
  \<open>collectingResult\<close>.  \<open>parse s\<close> is \<open>JSON.parse(s).array\<close>, \<open>None\<close> when the parse or
  the property access throws; then the \<open>catch\<close> continues with the next line.  The result
  is \<open>Inl\<close> the returned array, or \<open>Inr\<close> the state after the last line.  An
  \<open>update\<close> event only logs, which is not modelled.
\<close>

fun process_lines ::
  "(string \<Rightarrow> 'r option) \<Rightarrow> string list \<Rightarrow> string \<times> bool \<Rightarrow> 'r + string \<times> bool" where
  "process_lines parse [] st = Inr st"
| "process_lines parse (line # lines) (resultBuffer, collectingResult) =
     (if startsWith line ''event: '' \<and> trim (drop 7 line) = ''result''
      then process_lines parse lines (resultBuffer, True)
      else if collectingResult \<and> startsWith line ''data: ''
      then (case parse (resultBuffer @ drop 6 line) of
              Some array \<Rightarrow> Inl array
            | None \<Rightarrow> process_lines parse lines (resultBuffer @ drop 6 line, collectingResult))
      else process_lines parse lines (resultBuffer, collectingResult))"

text \<open>
  The \<open>while (true)\<close> loop over the chunks; it ends when the reader reports \<open>done\<close>, and
  then the function throws.  What follows the last newline stays in \<open>buffer\<close>.
\<close>

fun read_loop ::
  "(string \<Rightarrow> 'r option) \<Rightarrow> string list \<Rightarrow> string \<Rightarrow> string \<times> bool \<Rightarrow> 'r outcome" where
  "read_loop parse [] buffer st = Throws ''Stream ended without complete result''"
| "read_loop parse (chunk # chunks) buffer st =
     (let lines = split_nl (buffer @ chunk)
      in case process_lines parse (butlast lines) st of
           Inl array \<Rightarrow> Returns array
         | Inr st' \<Rightarrow> read_loop parse chunks (last lines) st')"

definition fetchEach ::
  "(string \<Rightarrow> 'r option) \<Rightarrow> (request_json list \<Rightarrow> stream_response) \<Rightarrow> dispatch_item list \<Rightarrow>
   'r outcome" where
  "fetchEach parse post array =
     (let requestJsons = map to_request_json array
      in case post requestJsons of
           FetchRejected msg \<Rightarrow> Throws msg
         | HttpResponse ok text body \<Rightarrow>
             if \<not> ok then Throws (''dmap failed: '' @ text)
             else (case body of
                     None \<Rightarrow> Throws ''No response body''
                   | Some chunks \<Rightarrow> read_loop parse chunks [] ([], False)))"

text \<open>
  The two kinds of lines the client looks for in the event stream.
\<close>

definition event_line :: "string \<Rightarrow> string" where
  "event_line name = ''event: '' @ name"

definition data_line :: "string \<Rightarrow> string" where
  "data_line payload = ''data: '' @ payload"

text \<open>
  Modelled from the spec: the dispatcher service that answers the POST is not under src/.
  A "progress" event of the service, with its text; the event name \<open>update\<close> is the one
  the client tests for.
\<close>

definition progress_event :: "string \<Rightarrow> string" where
  "progress_event text = event_line ''update'' @ [newline] @ data_line text @ [newline, newline]"

text \<open>
  Modelled from the spec: the "final result" event of the dispatcher service (not under
  src/), carrying the payload on one \<open>data\<close> line.
\<close>

definition result_event :: "string \<Rightarrow> string" where
  "result_event payload = event_line ''result'' @ [newline] @ data_line payload @ [newline, newline]"

text \<open>
  Modelled from the spec: the event stream of the dispatcher service, which is not under
  src/.  The specification says that the service emits one "progress" event per completed
  item and then one "final result" event carrying the complete result array, one outcome
  per item in the order of the input.  \<open>perform\<close> gives the outcome of one request,
  \<open>encode\<close> the JSON text of the final payload and \<open>progress i\<close> the text of the \<open>i\<close>-th
  progress event.
\<close>

definition dispatcher_stream ::
  "(request_json \<Rightarrow> 'o) \<Rightarrow> ('o list \<Rightarrow> string) \<Rightarrow> (nat \<Rightarrow> string) \<Rightarrow> request_json list \<Rightarrow> string" where
  "dispatcher_stream perform encode progress requests =
     concat (map (\<lambda>i. progress_event (progress i)) [0..<length requests]) @
     result_event (encode (map perform requests))"

text \<open>
  A sample dispatcher: every request succeeds with the outcome \<open>k\<close>, the final payload
  is the outcomes between braces, and the stream arrives in two chunks cut after 20
  characters.
\<close>

definition sample_perform :: "request_json \<Rightarrow> char" where
  "sample_perform r = CHR ''k''"

definition sample_encode :: "string \<Rightarrow> string" where
  "sample_encode rs = ''{'' @ rs @ ''}''"

definition sample_parse :: "string \<Rightarrow> string option" where
  "sample_parse s =
     (if 2 \<le> length s \<and> hd s = CHR ''{'' \<and> last s = CHR ''}'' then Some (butlast (tl s))
      else None)"

definition sample_progress :: "nat \<Rightarrow> string" where
  "sample_progress i = ''done''"

definition sample_post :: "request_json list \<Rightarrow> stream_response" where
  "sample_post requests =
     HttpResponse True []
       (Some [take 20 (dispatcher_stream sample_perform sample_encode sample_progress requests),
              drop 20 (dispatcher_stream sample_perform sample_encode sample_progress requests)])"

section \<open>Refresh scheduler (backend/env/types.ts, backend/env/env.ts)\<close>

text \<open>
  The fields of \<open>DEV_CONFIG\<close> that the scheduler reads.
\<close>

record dev_config =
  apiRefreshHour :: nat
  apiRefreshBuffer :: nat
  popularReposCacheKey :: string

definition DEV_CONFIG :: dev_config where
  "DEV_CONFIG = \<lparr> apiRefreshHour = 1, apiRefreshBuffer = 30,
                  popularReposCacheKey = ''popular-repositories-list'' \<rparr>"

text \<open>
  A \<open>Date\<close> is represented by the UTC fields the code reads from it
  (\<open>getUTCFullYear\<close>, \<open>getUTCMonth\<close>, \<open>getUTCDate\<close>, \<open>getUTCHours\<close>,
  \<open>getUTCMinutes\<close>).
\<close>

record utc_date =
  utcFullYear :: nat
  utcMonth :: nat
  utcDate :: nat
  utcHours :: nat
  utcMinutes :: nat

text \<open>
  The KV namespace \<open>env.REPO_CACHE\<close> as seen by the scheduler: its \<open>get\<close> either rejects
  or resolves to \<open>null\<close> (\<open>None\<close>) or to the stored timestamp string.  The string is
  represented by what \<open>new Date(string)\<close> makes of it: \<open>None\<close> is an Invalid Date (all
  getters are \<open>NaN\<close>, so every \<open>===\<close>, \<open>>\<close> and \<open>>=\<close> on them is false), \<open>Some d\<close> a
  valid date.  The binding itself may be absent from the environment.
\<close>

type_synonym repo_cache = "string \<Rightarrow> utc_date option option outcome"

record env =
  REPO_CACHE :: "repo_cache option"

definition wasAfterRefreshTime :: "utc_date \<Rightarrow> bool" where
  "wasAfterRefreshTime lastRefresh \<longleftrightarrow>
     utcHours lastRefresh > apiRefreshHour DEV_CONFIG \<or>
     (utcHours lastRefresh = apiRefreshHour DEV_CONFIG \<and>
      utcMinutes lastRefresh \<ge> apiRefreshBuffer DEV_CONFIG)"

definition isSameDay :: "utc_date \<Rightarrow> utc_date \<Rightarrow> bool" where
  "isSameDay lastRefresh now \<longleftrightarrow>
     utcFullYear lastRefresh = utcFullYear now \<and>
     utcMonth lastRefresh = utcMonth now \<and>
     utcDate lastRefresh = utcDate now"

text \<open>
  \<open>hasRefreshedToday(env)\<close>; \<open>now\<close> is the value of its \<open>new Date()\<close>.  The whole body
  is inside \<open>try\<close>, and the \<open>catch\<close> returns \<open>false\<close>.
\<close>

definition hasRefreshedToday :: "env \<Rightarrow> utc_date \<Rightarrow> bool" where
  "hasRefreshedToday e now =
     (case REPO_CACHE e of
        None \<Rightarrow> False
      | Some kv \<Rightarrow>
          (case kv (popularReposCacheKey DEV_CONFIG @ ''-last-refresh'') of
             Throws err \<Rightarrow> False
           | Returns None \<Rightarrow> False
           | Returns (Some None) \<Rightarrow> False
           | Returns (Some (Some lastRefresh)) \<Rightarrow>
               isSameDay lastRefresh now \<and> wasAfterRefreshTime lastRefresh))"

definition isTimeToRefresh :: "utc_date \<Rightarrow> bool" where
  "isTimeToRefresh now \<longleftrightarrow>
     (utcHours now = apiRefreshHour DEV_CONFIG \<and>
      utcMinutes now \<ge> apiRefreshBuffer DEV_CONFIG) \<or>
     utcHours now > apiRefreshHour DEV_CONFIG"

text \<open>
  \<open>shouldRefreshCache(env)\<close>; \<open>now\<close> is its own \<open>new Date()\<close> and \<open>now'\<close> the one
  \<open>hasRefreshedToday\<close> takes afterwards.
\<close>

definition shouldRefreshCache :: "env \<Rightarrow> utc_date \<Rightarrow> utc_date \<Rightarrow> bool" where
  "shouldRefreshCache e now now' =
     (if \<not> isTimeToRefresh now then False
      else (let alreadyRefreshed = hasRefreshedToday e now'
            in isTimeToRefresh now \<and> \<not> alreadyRefreshed))"

text \<open>The environment whose marker read resolves to the given date.\<close>

definition env_with_marker :: "utc_date \<Rightarrow> env" where
  "env_with_marker m = \<lparr> REPO_CACHE = Some (\<lambda>k. Returns (Some (Some m))) \<rparr>"

text \<open>The environment whose KV \<open>get\<close> rejects with the given message.\<close>

definition env_failing :: "string \<Rightarrow> env" where
  "env_failing msg = \<lparr> REPO_CACHE = Some (\<lambda>k. Throws msg) \<rparr>"

section \<open>Verified properties\<close>

subsection \<open>Objects as dictionaries\<close>

lemma map_of_replace:
  "map_of (map (\<lambda>p. if fst p = k then (k, v) else p) obj) =
     (if k \<in> set (map fst obj) then (map_of obj)(k \<mapsto> v) else map_of obj)"
  by (induction obj) (auto simp: fun_eq_iff)

lemma map_of_insert_fresh:
  assumes "k \<notin> set (map fst (xs @ ys))"
  shows "map_of (xs @ (k, v) # ys) = (map_of (xs @ ys))(k \<mapsto> v)"
  using assms by (induction xs) (auto simp: fun_eq_iff)

lemma map_of_obj_set: "map_of (obj_set obj k v) = (map_of obj)(k \<mapsto> v)"
proof (cases "k \<in> set (map fst obj)")
  case True
  then show ?thesis by (simp add: obj_set_def map_of_replace)
next
  case False
  have "map_of (takeWhile (precedes k) obj @ (k, v) # dropWhile (precedes k) obj) =
        (map_of obj)(k \<mapsto> v)"
    using False map_of_insert_fresh [of k "takeWhile (precedes k) obj" "dropWhile (precedes k) obj" v]
    by simp
  moreover have "map_of (obj @ [(k, v)]) = (map_of obj)(k \<mapsto> v)"
    using False map_of_insert_fresh [of k obj "[]" v] by simp
  ultimately show ?thesis using False by (simp add: obj_set_def)
qed

lemma obj_get_obj_set:
  "map_of (obj_set obj k v) k' = (if k' = k then Some v else map_of obj k')"
  by (simp add: map_of_obj_set)

lemma dom_obj_set: "dom (map_of (obj_set obj k v)) = insert k (dom (map_of obj))"
  by (simp add: map_of_obj_set)

lemma keys_obj_set: "set (map fst (obj_set obj k v)) = insert k (set (map fst obj))"
proof -
  have "dom (map_of (obj_set obj k v)) = insert k (dom (map_of obj))"
    by (simp add: map_of_obj_set)
  then show ?thesis by (simp add: dom_map_of_conv_image_fst)
qed

lemma distinct_obj_set:
  assumes "distinct (map fst obj)"
  shows "distinct (map fst (obj_set obj k v))"
proof (cases "k \<in> set (map fst obj)")
  case True
  have h: "map fst (map (\<lambda>p. if fst p = k then (k, v) else p) obj) = map fst obj"
    by (induction obj) auto
  have "obj_set obj k v = map (\<lambda>p. if fst p = k then (k, v) else p) obj"
    using True by (simp add: obj_set_def)
  then show ?thesis using assms by (simp only: h)
next
  case False
  have "distinct (map fst (takeWhile (precedes k) obj @ dropWhile (precedes k) obj))"
    using assms by simp
  then have "distinct (map fst (takeWhile (precedes k) obj @ (k, v) # dropWhile (precedes k) obj))"
    using False
    by (auto simp del: takeWhile_dropWhile_id dest: set_takeWhileD set_dropWhileD)
  then show ?thesis using False assms by (auto simp add: obj_set_def)
qed

subsection \<open>Day aggregator\<close>

lemma assign_score_simps:
  "assign_score T ((idx, JStr name), i) r = obj_set r (toLowerCase name) (int T - int i)"
  "assign_score T ((idx, JNum n), i) r = r"
  by (simp_all add: assign_score_def)

lemma fold_assign_untouched:
  assumes "\<forall>p\<in>set ps. \<forall>name. snd (fst p) = JStr name \<longrightarrow> toLowerCase name \<noteq> k"
  shows "map_of (fold (assign_score T) ps acc) k = map_of acc k"
  using assms
proof (induction ps arbitrary: acc)
  case Nil
  then show ?case by simp
next
  case (Cons p ps)
  obtain idx v i where p: "p = ((idx, v), i)" by (metis surj_pair)
  show ?case using Cons p
    by (cases v) (auto simp add: assign_score_simps obj_get_obj_set)
qed

lemma fold_assign_last:
  assumes "\<forall>p\<in>set ys. \<forall>name. snd (fst p) = JStr name \<longrightarrow> toLowerCase name \<noteq> toLowerCase s"
  shows "map_of (fold (assign_score T) (xs @ ((idx, JStr s), i) # ys) acc) (toLowerCase s)
         = Some (int T - int i)"
  by (simp add: fold_assign_untouched [OF assms] assign_score_simps obj_get_obj_set)

lemma fold_assign_dom:
  "dom (map_of (fold (assign_score T) ps acc)) =
   dom (map_of acc) \<union> {toLowerCase name |name. \<exists>p\<in>set ps. snd (fst p) = JStr name}"
proof (induction ps arbitrary: acc)
  case Nil
  then show ?case by simp
next
  case (Cons p ps)
  obtain idx v i where p: "p = ((idx, v), i)" by (metis surj_pair)
  show ?case
  proof (cases v)
    case (JStr name)
    have "dom (map_of (fold (assign_score T) (p # ps) acc)) =
          insert (toLowerCase name) (dom (map_of acc)) \<union>
          {toLowerCase name |name. \<exists>p\<in>set ps. snd (fst p) = JStr name}"
      using p JStr Cons.IH [of "obj_set acc (toLowerCase name) (int T - int i)"]
      by (simp add: assign_score_simps dom_obj_set)
    also have "\<dots> = dom (map_of acc) \<union>
          {toLowerCase name |name. \<exists>q\<in>set (p # ps). snd (fst q) = JStr name}"
      using p JStr by auto
    finally show ?thesis .
  next
    case (JNum n)
    have "dom (map_of (fold (assign_score T) (p # ps) acc)) =
          dom (map_of acc) \<union> {toLowerCase name |name. \<exists>p\<in>set ps. snd (fst p) = JStr name}"
      using p JNum Cons.IH [of acc] by (simp add: assign_score_simps)
    also have "\<dots> = dom (map_of acc) \<union>
          {toLowerCase name |name. \<exists>q\<in>set (p # ps). snd (fst q) = JStr name}"
      using p JNum by auto
    finally show ?thesis .
  qed
qed

lemma zip_upt_split:
  assumes "i < length es"
  shows "zip es [0..<length es] =
         take i (zip es [0..<length es]) @ (es ! i, i) # drop (Suc i) (zip es [0..<length es])"
  using assms id_take_nth_drop [of i "zip es [0..<length es]"] by simp

lemma in_drop_zip_upt:
  assumes "p \<in> set (drop (Suc i) (zip es [0..<length es]))"
  shows "\<exists>j. i < j \<and> j < length es \<and> p = (es ! j, j)"
proof -
  from assms obtain n where n: "n < length es - Suc i" "p = drop (Suc i) (zip es [0..<length es]) ! n"
    by (auto simp: in_set_conv_nth)
  then have "p = (es ! (Suc i + n), Suc i + n)" by simp
  then show ?thesis using n by (intro exI [of _ "Suc i + n"]) auto
qed

lemma fold_assign_nth:
  assumes i: "i < length es" and s: "snd (es ! i) = JStr s"
    and later: "\<forall>j s'. i < j \<and> j < length es \<and> snd (es ! j) = JStr s'
                         \<longrightarrow> toLowerCase s' \<noteq> toLowerCase s"
  shows "map_of (fold (assign_score T) (zip es [0..<length es]) acc) (toLowerCase s)
         = Some (int T - int i)"
proof -
  have "\<forall>p\<in>set (drop (Suc i) (zip es [0..<length es])).
          \<forall>name. snd (fst p) = JStr name \<longrightarrow> toLowerCase name \<noteq> toLowerCase s"
    using later by (auto dest!: in_drop_zip_upt)
  moreover have "es ! i = (fst (es ! i), JStr s)" using s by (metis prod.collapse)
  ultimately have "map_of (fold (assign_score T)
      (take i (zip es [0..<length es]) @ (es ! i, i) # drop (Suc i) (zip es [0..<length es])) acc)
      (toLowerCase s) = Some (int T - int i)"
    using fold_assign_last [of "drop (Suc i) (zip es [0..<length es])" s T
          "take i (zip es [0..<length es])" "fst (es ! i)" i acc]
    by simp
  then show ?thesis using zip_upt_split [OF i] by simp
qed

lemma fold_assign_keys:
  "map_of (fold (assign_score T) (zip es [0..<length es]) []) k \<noteq> None \<longleftrightarrow>
     (\<exists>i s. i < length es \<and> snd (es ! i) = JStr s \<and> k = toLowerCase s)"
proof -
  have "map_of (fold (assign_score T) (zip es [0..<length es]) []) k \<noteq> None \<longleftrightarrow>
        k \<in> dom (map_of (fold (assign_score T) (zip es [0..<length es]) []))"
    by auto
  also have "\<dots> \<longleftrightarrow> (\<exists>name. k = toLowerCase name \<and>
                (\<exists>p\<in>set (zip es [0..<length es]). snd (fst p) = JStr name))"
    unfolding fold_assign_dom by auto
  also have "\<dots> \<longleftrightarrow> (\<exists>i s. i < length es \<and> snd (es ! i) = JStr s \<and> k = toLowerCase s)"
  proof
    assume "\<exists>name. k = toLowerCase name \<and>
                (\<exists>p\<in>set (zip es [0..<length es]). snd (fst p) = JStr name)"
    then obtain name p where np: "k = toLowerCase name" "p \<in> set (zip es [0..<length es])"
        "snd (fst p) = JStr name" by blast
    then obtain n where "n < length es" "p = (es ! n, n)"
      by (auto simp: in_set_conv_nth)
    then show "\<exists>i s. i < length es \<and> snd (es ! i) = JStr s \<and> k = toLowerCase s"
      using np by auto
  next
    assume "\<exists>i s. i < length es \<and> snd (es ! i) = JStr s \<and> k = toLowerCase s"
    then obtain i s where ex: "i < length es" "snd (es ! i) = JStr s" "k = toLowerCase s" by blast
    then have "(es ! i, i) \<in> set (zip es [0..<length es])"
      by (auto simp: in_set_conv_nth intro!: exI [of _ i])
    then show "\<exists>name. k = toLowerCase name \<and>
                (\<exists>p\<in>set (zip es [0..<length es]). snd (fst p) = JStr name)"
      using ex by force
  qed
  finally show ?thesis .
qed

lemma getDailyStars_hit:
  assumes "get_rejects kv (''v4-'' @ date) = None"
    and "kv_entries kv (''v4-'' @ date) = Some (Json cached)"
  shows "getDailyStars sortEntries fetch kv date limit = (Returns (formatResponse cached limit), kv)"
  using assms by (simp add: getDailyStars_def getCachedData_def kv_get_def Let_def del: append.simps)

lemma getDailyStars_miss:
  assumes "getCachedData kv (''v4-'' @ date) = Returns None"
    and "fetchAndAggregateData fetch date = doc" and "doc \<noteq> []"
    and "put_rejects kv (''v4-'' @ date) = None"
  shows "fst (getDailyStars sortEntries fetch kv date limit)
         = Returns (formatResponse (fromEntries (sortEntries doc)) limit)"
  using assms by (simp add: getDailyStars_def cacheData_def kv_put_def Let_def del: append.simps)

lemma example_day_end_to_end:
  "fst (getDailyStars id sample_upstream empty_store ''2025-01-01'' None)
     = Returns [(''a/b'', 2), (''c/d'', 1)]"
  by code_simp

lemma example_day_document:
  "formatResponse [(''0'', JStr ''a/b''), (''1'', JStr ''c/d''), (''date'', JStr ''2025-01-01'')] None
   = [(''a/b'', 2), (''c/d'', 1)]"
  by code_simp

text \<open>
  C1 (as amended).  \<open>formatResponse\<close> keeps the entries whose key converts to a number.
  With \<open>T\<close> such entries and no limit, a string-valued entry at position \<open>i\<close> whose lowercased
  identifier is not written again by a later entry has score \<open>T - i\<close> under its lowercased
  identifier; the result has no other keys than the lowercased identifiers of those
  entries; and the document \<open>{"0": "a/b", "1": "c/d", "date": "2025-01-01"}\<close> gives
  \<open>{"a/b": 2, "c/d": 1}\<close>.  \<open>getDailyStars\<close> returns \<open>formatResponse\<close> of the cached
  document on a cache hit; on a miss with an empty store and that document as the
  upstream answer it returns \<open>{"a/b": 2, "c/d": 1}\<close> (every comparison of the sort is
  \<open>NaN\<close> for this document, so the stable sort keeps the order).
\<close>

theorem C1_day_scores:
  "(let es = filter (\<lambda>(key, _). \<not> isNaN_Number key) data;
        T = length es;
        out = formatResponse data None
    in (\<forall>i s. i < T \<and> snd (es ! i) = JStr s \<and>
               (\<forall>j s'. i < j \<and> j < T \<and> snd (es ! j) = JStr s'
                          \<longrightarrow> toLowerCase s' \<noteq> toLowerCase s)
               \<longrightarrow> obj_get out (toLowerCase s) = Some (int T - int i)) \<and>
       (\<forall>k. obj_get out k \<noteq> None \<longleftrightarrow>
               (\<exists>i s. i < T \<and> snd (es ! i) = JStr s \<and> k = toLowerCase s))) \<and>
   formatResponse [(''0'', JStr ''a/b''), (''1'', JStr ''c/d''), (''date'', JStr ''2025-01-01'')] None
     = [(''a/b'', 2), (''c/d'', 1)] \<and>
   (get_rejects kv (''v4-'' @ date) = None \<and> kv_entries kv (''v4-'' @ date) = Some (Json data)
      \<longrightarrow> getDailyStars sortEntries fetch kv date None = (Returns (formatResponse data None), kv)) \<and>
   fst (getDailyStars id sample_upstream empty_store ''2025-01-01'' None)
     = Returns [(''a/b'', 2), (''c/d'', 1)]"
proof -
  have scores: "let es = filter (\<lambda>(key, _). \<not> isNaN_Number key) data;
        T = length es;
        out = formatResponse data None
    in (\<forall>i s. i < T \<and> snd (es ! i) = JStr s \<and>
               (\<forall>j s'. i < j \<and> j < T \<and> snd (es ! j) = JStr s'
                          \<longrightarrow> toLowerCase s' \<noteq> toLowerCase s)
               \<longrightarrow> obj_get out (toLowerCase s) = Some (int T - int i)) \<and>
       (\<forall>k. obj_get out k \<noteq> None \<longleftrightarrow>
               (\<exists>i s. i < T \<and> snd (es ! i) = JStr s \<and> k = toLowerCase s))"
    unfolding Let_def formatResponse_def obj_get_def
    using fold_assign_nth [where acc = "[]"] fold_assign_keys
    by (simp add: Let_def)
  show ?thesis
    using scores example_day_document example_day_end_to_end
      getDailyStars_hit [of kv date data sortEntries fetch None]
    by (simp only: simp_thms) blast
qed

theorem C1_day_scores_witness:
  "obj_get (formatResponse [(''0'', JStr ''Facebook/React''), (''1'', JStr ''c/d''),
                            (''date'', JStr ''2025-01-01'')] None) ''facebook/react'' = Some 2"
proof -
  let ?d = "[(''0'', JStr ''Facebook/React''), (''1'', JStr ''c/d''), (''date'', JStr ''2025-01-01'')]"
  have es: "filter (\<lambda>(key, _). \<not> isNaN_Number key) ?d
            = [(''0'', JStr ''Facebook/React''), (''1'', JStr ''c/d'')]"
    by code_simp
  have low: "toLowerCase ''Facebook/React'' = ''facebook/react''" "toLowerCase ''c/d'' = ''c/d''"
    by code_simp+
  have later: "\<forall>j s'. 0 < j \<and> j < length [(''0'', JStr ''Facebook/React''), (''1'', JStr ''c/d'')] \<and>
            snd ([(''0'', JStr ''Facebook/React''), (''1'', JStr ''c/d'')] ! j) = JStr s'
            \<longrightarrow> toLowerCase s' \<noteq> toLowerCase ''Facebook/React''"
    by (auto simp add: low less_Suc_eq)
  show ?thesis
    using C1_day_scores [of ?d, unfolded Let_def es, THEN conjunct1, THEN conjunct1,
        rule_format, of 0 "''Facebook/React''"] later
    by (simp add: low)
qed

text \<open>
  C1 as stated fails when two entries have the same lowercased identifier: in
  \<open>{"0": "A/B", "1": "a/b"}\<close> both keys are numeric (\<open>T = 2\<close>), and the entry at index 0
  ends with the score 1 that the later assignment wrote, not with \<open>T - 0 = 2\<close>.
\<close>

theorem C1_duplicate_counterexample:
  "obj_get (formatResponse [(''0'', JStr ''A/B''), (''1'', JStr ''a/b'')] None) (toLowerCase ''A/B'')
     = Some 1 \<and>
   obj_get (formatResponse [(''0'', JStr ''A/B''), (''1'', JStr ''a/b'')] None) (toLowerCase ''A/B'')
     \<noteq> Some (2 - 0) \<and>
   length (filter (\<lambda>(key, _). \<not> isNaN_Number key) [(''0'', JStr ''A/B''), (''1'', JStr ''a/b'')]) = 2"
  by code_simp


lemma fromEntries_snoc:
  "fromEntries (es @ [p]) = obj_set (fromEntries es) (fst p) (snd p)"
  by (simp add: fromEntries_def)

lemma fromEntries_enumeration:
  assumes "enumeration es"
  shows "fromEntries es = es"
  using assms
proof (induction es rule: rev_induct)
  case Nil
  then show ?case by (simp add: fromEntries_def)
next
  case (snoc p es)
  then have es: "fromEntries es = es" and fresh: "fst p \<notin> set (map fst es)"
    and before: "\<forall>q\<in>set es. enum_before q p"
    by (auto simp: enumeration_def sorted_wrt_append)
  show ?case
  proof (cases "is_array_index (fst p)")
    case True
    then have "\<forall>q\<in>set es. precedes (fst p) q"
      using before by (simp add: enum_before_def precedes_def)
    then have "takeWhile (precedes (fst p)) es = es" "dropWhile (precedes (fst p)) es = []"
      by (simp_all add: takeWhile_eq_all_conv)
    then show ?thesis using fresh True by (simp add: fromEntries_snoc es obj_set_def)
  next
    case False
    then show ?thesis using fresh by (simp add: fromEntries_snoc es obj_set_def)
  qed
qed

lemma enumeration_take: "enumeration es \<Longrightarrow> enumeration (take n es)"
  by (simp add: enumeration_def sorted_wrt_take distinct_take take_map [symmetric])

lemma applyLimit_truncates:
  assumes "enumeration data" and "0 < K"
  shows "applyLimit data (Some (int K)) = take K data"
  using assms fromEntries_enumeration [OF enumeration_take [OF assms(1), of K]]
  by (simp add: applyLimit_def slice0_def)

lemma length_obj_set:
  "length (obj_set obj k v) = (if k \<in> set (map fst obj) then length obj else Suc (length obj))"
  by (simp add: obj_set_def) (metis length_append takeWhile_dropWhile_id)

lemma distinct_fold_assign:
  "distinct (map fst acc) \<Longrightarrow> distinct (map fst (fold (assign_score T) ps acc))"
proof (induction ps arbitrary: acc)
  case Nil
  then show ?case by simp
next
  case (Cons p ps)
  obtain idx v i where p: "p = ((idx, v), i)" by (metis surj_pair)
  show ?case using Cons p
    by (cases v) (simp_all add: assign_score_simps distinct_obj_set)
qed

lemma length_formatted:
  assumes "map snd es = map JStr names" and "distinct (map toLowerCase names)"
  shows "length (fold (assign_score T) (zip es [0..<length es]) []) = length names"
proof -
  let ?out = "fold (assign_score T) (zip es [0..<length es]) []"
  have len: "length es = length names" using assms(1) by (metis length_map)
  have nth: "snd (es ! i) = JStr (names ! i)" if "i < length es" for i
    using assms(1) that len by (metis nth_map)
  have "set (map fst ?out) = dom (map_of ?out)" by (simp add: dom_map_of_conv_image_fst)
  also have "\<dots> = {k. map_of ?out k \<noteq> None}" by (auto simp: dom_def)
  also have "\<dots> = {k. \<exists>i s. i < length es \<and> snd (es ! i) = JStr s \<and> k = toLowerCase s}"
    by (simp only: fold_assign_keys)
  also have "\<dots> = set (map toLowerCase names)"
  proof (intro set_eqI iffI)
    fix k assume "k \<in> {k. \<exists>i s. i < length es \<and> snd (es ! i) = JStr s \<and> k = toLowerCase s}"
    then obtain i s where "i < length es" "snd (es ! i) = JStr s" "k = toLowerCase s" by blast
    then have "k = toLowerCase (names ! i)" "i < length names" using nth len by auto
    then show "k \<in> set (map toLowerCase names)" by auto
  next
    fix k assume "k \<in> set (map toLowerCase names)"
    then obtain i where "i < length names" "k = toLowerCase (names ! i)"
      by (auto simp: in_set_conv_nth)
    then show "k \<in> {k. \<exists>i s. i < length es \<and> snd (es ! i) = JStr s \<and> k = toLowerCase s}"
      using nth len by auto
  qed
  finally have "set (map fst ?out) = set (map toLowerCase names)" .
  moreover have "distinct (map fst ?out)" by (simp add: distinct_fold_assign)
  ultimately have "length (map fst ?out) = length (map toLowerCase names)"
    using assms(2) by (metis distinct_card)
  then show ?thesis by simp
qed

text \<open>
  C3 (as amended).  Let the document have \<open>M\<close> numeric-key entries, all with string values
  whose lowercased identifiers are pairwise distinct, and let \<open>0 < K < M\<close>.  Then
  \<open>formatResponse\<close> with \<open>limit = K\<close> returns exactly \<open>K\<close> entries, whose keys are the
  \<open>K\<close> highest-scored keys of the unlimited output, and the entry of rank \<open>i\<close> has score
  \<open>K - i\<close> where the unlimited output gives it \<open>M - i\<close>: the limit is applied before the
  ranks are inverted.  The \<open>applyLimit\<close> of the earlier revision does return the first
  \<open>K\<close> entries of the document it is given unchanged.  On a cache hit \<open>getDailyStars\<close>
  returns \<open>formatResponse\<close> of the cached document with the limit.
\<close>

theorem C3_limit_keeps_top_entries:
  assumes "map snd (filter (\<lambda>(key, _). \<not> isNaN_Number key) data) = map JStr names"
    and "distinct (map toLowerCase names)"
    and "0 < K" and "K < length names"
  shows "(\<forall>i<K. obj_get (formatResponse data (Some (int K))) (toLowerCase (names ! i))
                   = Some (int K - int i)) \<and>
         (\<forall>i. K \<le> i \<and> i < length names \<longrightarrow>
               obj_get (formatResponse data (Some (int K))) (toLowerCase (names ! i)) = None) \<and>
         (\<forall>i<length names. obj_get (formatResponse data None) (toLowerCase (names ! i))
                   = Some (int (length names) - int i)) \<and>
         length (formatResponse data (Some (int K))) = K \<and>
         length (formatResponse data None) = length names \<and>
         (enumeration doc \<longrightarrow> applyLimit doc (Some (int K)) = take K doc) \<and>
         (get_rejects kv (''v4-'' @ date) = None \<and>
          kv_entries kv (''v4-'' @ date) = Some (Json data) \<longrightarrow>
            getDailyStars sortEntries fetch kv date (Some (int K))
              = (Returns (formatResponse data (Some (int K))), kv))"
proof -
  define es where "es = filter (\<lambda>(key, _). \<not> isNaN_Number key) data"
  have len: "length es = length names" using assms(1) es_def by (metis length_map)
  have nth: "snd (es ! i) = JStr (names ! i)" if "i < length names" for i
    using assms(1) that len es_def by (metis nth_map)
  have inj: "toLowerCase (names ! i) \<noteq> toLowerCase (names ! j)"
    if "i < length names" "j < length names" "i \<noteq> j" for i j
    using assms(2) that by (simp add: distinct_conv_nth)
  have unl: "formatResponse data None = fold (assign_score (length es)) (zip es [0..<length es]) []"
    by (simp add: formatResponse_def es_def Let_def)
  have lenK: "length (take K es) = K" using assms(4) len by simp
  have lim: "formatResponse data (Some (int K)) =
             fold (assign_score K) (zip (take K es) [0..<length (take K es)]) []"
  proof -
    have "min (length es) K = K" using assms(4) len by simp
    then show ?thesis
      using assms(3) by (simp add: formatResponse_def es_def [symmetric] Let_def slice0_def)
  qed
  have nthK: "snd (take K es ! i) = JStr (names ! i)" if "i < K" for i
    using that nth assms(4) by simp
  have 1: "obj_get (formatResponse data (Some (int K))) (toLowerCase (names ! i)) = Some (int K - int i)"
    if "i < K" for i
  proof -
    have "\<forall>j s'. i < j \<and> j < length (take K es) \<and> snd (take K es ! j) = JStr s'
             \<longrightarrow> toLowerCase s' \<noteq> toLowerCase (names ! i)"
      using nthK inj that assms(4) lenK by (metis jsval.inject(1) less_trans nat_neq_iff)
    then show ?thesis
      unfolding lim obj_get_def
      using fold_assign_nth [of i "take K es" "names ! i" K "[]"] that nthK [OF that] lenK by simp
  qed
  have 2: "obj_get (formatResponse data (Some (int K))) (toLowerCase (names ! i)) = None"
    if "K \<le> i" "i < length names" for i
  proof (rule ccontr)
    assume "obj_get (formatResponse data (Some (int K))) (toLowerCase (names ! i)) \<noteq> None"
    then obtain j s where j: "j < length (take K es)" "snd (take K es ! j) = JStr s"
        "toLowerCase (names ! i) = toLowerCase s"
      unfolding lim obj_get_def fold_assign_keys by blast
    then have "j < K" "s = names ! j" using nthK lenK by auto
    then show False using inj [of i j] that j(3) assms(4) by auto
  qed
  have 3: "obj_get (formatResponse data None) (toLowerCase (names ! i)) = Some (int (length names) - int i)"
    if "i < length names" for i
  proof -
    have "\<forall>j s'. i < j \<and> j < length es \<and> snd (es ! j) = JStr s'
             \<longrightarrow> toLowerCase s' \<noteq> toLowerCase (names ! i)"
      using nth inj that len by (metis jsval.inject(1) nat_neq_iff)
    then show ?thesis
      unfolding unl obj_get_def
      using fold_assign_nth [of i es "names ! i" "length es" "[]"] that nth [OF that] len by simp
  qed
  have 4: "length (formatResponse data (Some (int K))) = K"
  proof -
    have "map snd (take K es) = take K (map snd es)" by (simp add: take_map)
    then have "map snd (take K es) = map JStr (take K names)"
      using assms(1) es_def by (simp add: take_map)
    moreover have "distinct (map toLowerCase (take K names))"
      using assms(2) by (simp add: take_map [symmetric] distinct_take)
    ultimately show ?thesis
      unfolding lim using length_formatted [of "take K es" "take K names" K] assms(4) by simp
  qed
  have 5: "length (formatResponse data None) = length names"
    unfolding unl using length_formatted [of es names "length es"] assms(1,2) es_def by simp
  have 6: "enumeration doc \<longrightarrow> applyLimit doc (Some (int K)) = take K doc"
    using applyLimit_truncates assms(3) by blast
  have 7: "get_rejects kv (''v4-'' @ date) = None \<and>
          kv_entries kv (''v4-'' @ date) = Some (Json data) \<longrightarrow>
            getDailyStars sortEntries fetch kv date (Some (int K))
              = (Returns (formatResponse data (Some (int K))), kv)"
    using getDailyStars_hit by blast
  show ?thesis using 1 2 3 4 5 6 7 by blast
qed

text \<open>
  C3 as stated fails: for \<open>{"0": "a/b", "1": "c/d"}\<close> and \<open>limit = 1\<close> the output is
  \<open>{"a/b": 1}\<close>, while the unlimited output \<open>{"a/b": 2, "c/d": 1}\<close> truncated to its first
  entry is \<open>{"a/b": 2}\<close>.  The day service run on the sample upstream document with
  \<open>limit = 1\<close> returns \<open>{"a/b": 1}\<close> as well.
\<close>

theorem C3_limit_counterexample:
  "fst (getDailyStars id sample_upstream empty_store ''2025-01-01'' (Some 1))
     = Returns [(''a/b'', 1)] \<and>
   formatResponse [(''0'', JStr ''a/b''), (''1'', JStr ''c/d'')] (Some 1) = [(''a/b'', 1)] \<and>
   take 1 (formatResponse [(''0'', JStr ''a/b''), (''1'', JStr ''c/d'')] None) = [(''a/b'', 2)] \<and>
   formatResponse [(''0'', JStr ''a/b''), (''1'', JStr ''c/d'')] (Some 1)
     \<noteq> take 1 (formatResponse [(''0'', JStr ''a/b''), (''1'', JStr ''c/d'')] None)"
  by code_simp

theorem C3_limit_keeps_top_entries_witness:
  "obj_get (formatResponse [(''0'', JStr ''a/b''), (''1'', JStr ''c/d''), (''2'', JStr ''e/f'')]
      (Some 2)) ''a/b'' = Some 2 \<and>
   obj_get (formatResponse [(''0'', JStr ''a/b''), (''1'', JStr ''c/d''), (''2'', JStr ''e/f'')]
      None) ''a/b'' = Some 3 \<and>
   obj_get (formatResponse [(''0'', JStr ''a/b''), (''1'', JStr ''c/d''), (''2'', JStr ''e/f'')]
      (Some 2)) ''e/f'' = None \<and>
   applyLimit [(''0'', JStr ''a/b''), (''1'', JStr ''c/d''), (''date'', JStr ''2025-01-01'')] (Some 2)
     = [(''0'', JStr ''a/b''), (''1'', JStr ''c/d'')]"
proof -
  let ?d = "[(''0'', JStr ''a/b''), (''1'', JStr ''c/d''), (''2'', JStr ''e/f'')]"
  let ?doc = "[(''0'', JStr ''a/b''), (''1'', JStr ''c/d''), (''date'', JStr ''2025-01-01'')]"
  have es: "map snd (filter (\<lambda>(key, _). \<not> isNaN_Number key) ?d) = map JStr [''a/b'', ''c/d'', ''e/f'']"
    by code_simp
  have low: "toLowerCase ''a/b'' = ''a/b''" "toLowerCase ''c/d'' = ''c/d''" "toLowerCase ''e/f'' = ''e/f''"
    by code_simp+
  have dist: "distinct (map toLowerCase [''a/b'', ''c/d'', ''e/f''])" by (simp add: low)
  have enum: "enumeration ?doc" by code_simp
  have K: "(0::nat) < 2" "(2::nat) < length [''a/b'', ''c/d'', ''e/f'']" by simp_all
  note inst = C3_limit_keeps_top_entries [OF es dist K, of ?doc]
  have a: "obj_get (formatResponse ?d (Some 2)) ''a/b'' = Some 2"
    using inst [THEN conjunct1, rule_format, of 0] by (simp add: low)
  have b: "obj_get (formatResponse ?d None) ''a/b'' = Some 3"
    using inst [THEN conjunct2, THEN conjunct2, THEN conjunct1, rule_format, of 0] by (simp add: low)
  have c: "obj_get (formatResponse ?d (Some 2)) ''e/f'' = None"
    using inst [THEN conjunct2, THEN conjunct1, rule_format, of 2] by (simp add: low)
  have d: "applyLimit ?doc (Some 2) = [(''0'', JStr ''a/b''), (''1'', JStr ''c/d'')]"
    using inst enum by simp
  show ?thesis using a b c d by blast
qed


subsection \<open>Window aggregators\<close>

lemma map_of_fromEntries:
  assumes "distinct (map fst es)"
  shows "map_of (fromEntries es) = map_of es"
  using assms
proof (induction es rule: rev_induct)
  case Nil
  then show ?case by (simp add: fromEntries_def)
next
  case (snoc p es)
  then have "map_of (fromEntries es) = map_of es" and "fst p \<notin> set (map fst es)" by auto
  then show ?case
    using map_of_insert_fresh [of "fst p" es "[]" "snd p"]
    by (simp add: fromEntries_snoc map_of_obj_set)
qed

lemma map_of_sort_key:
  assumes "distinct (map fst xs)"
  shows "map_of (sort_key f xs) = map_of xs"
proof -
  have "distinct (map fst (sort_key f xs))"
    using assms by (simp add: distinct_map)
  then show ?thesis using assms by (simp add: map_of_inject_set)
qed

lemma or_zero_Some: "or_zero (Some a) = a"
  by (simp add: or_zero_def)

lemma add_score_get:
  "or_zero (map_of (add_score p agg) k) =
     or_zero (map_of agg k) + (if fst p = k then numericScore (snd p) else 0)"
  by (cases p) (simp add: add_score_def obj_get_obj_set obj_get_def or_zero_Some)

lemma add_score_dom: "dom (map_of (add_score p agg)) = insert (fst p) (dom (map_of agg))"
  by (cases p) (simp add: add_score_def dom_obj_set)

lemma add_score_distinct: "distinct (map fst agg) \<Longrightarrow> distinct (map fst (add_score p agg))"
  by (cases p) (simp add: add_score_def distinct_obj_set)

lemma fold_add_score_get:
  "or_zero (map_of (fold add_score data agg) k) =
     or_zero (map_of agg k) + (\<Sum>p\<leftarrow>data. if fst p = k then numericScore (snd p) else 0)"
  by (induction data arbitrary: agg) (simp_all add: add_score_get)

lemma fold_add_score_dom:
  "dom (map_of (fold add_score data agg)) = dom (map_of agg) \<union> set (map fst data)"
  by (induction data arbitrary: agg) (auto simp add: add_score_dom)

lemma fold_add_score_distinct:
  "distinct (map fst agg) \<Longrightarrow> distinct (map fst (fold add_score data agg))"
  by (induction data arbitrary: agg) (simp_all add: add_score_distinct)

lemma sum_key_distinct:
  assumes "distinct (map fst data)"
  shows "(\<Sum>p\<leftarrow>data. if fst p = k then numericScore (snd p) else 0) =
         (case map_of data k of Some (JNum n) \<Rightarrow> n | _ \<Rightarrow> 0)"
  using assms
proof (induction data)
  case Nil
  then show ?case by simp
next
  case (Cons p data)
  show ?case
  proof (cases "fst p = k")
    case True
    then have "k \<notin> set (map fst data)" using Cons.prems by auto
    then have "(\<Sum>p\<leftarrow>data. if fst p = k then numericScore (snd p) else 0) = 0"
      by (induction data) auto
    then show ?thesis using True
      by (cases p) (auto simp: numericScore_def split: jsval.splits)
  next
    case False
    then show ?thesis using Cons by (cases p) auto
  qed
qed

lemma process_url_get:
  assumes "\<forall>data. spec_day_map (fetch url) = Some data \<longrightarrow> distinct (map fst data)"
  shows "or_zero (map_of (process_url fetch url agg) k) =
           or_zero (map_of agg k) + spec_day_score (fetch url) k"
  using assms
  by (auto simp: process_url_def spec_day_score_def spec_day_map_def fold_add_score_get
      sum_key_distinct split: fetched.splits outcome.splits)

lemma process_url_dom:
  "dom (map_of (process_url fetch url agg)) =
     dom (map_of agg) \<union> {k. spec_day_has (fetch url) k}"
  by (auto simp: process_url_def spec_day_has_def spec_day_map_def fold_add_score_dom
      split: fetched.splits outcome.splits)

lemma process_url_distinct:
  "distinct (map fst agg) \<Longrightarrow> distinct (map fst (process_url fetch url agg))"
  by (auto simp: process_url_def fold_add_score_distinct split: fetched.splits outcome.splits)

lemma fold_process_url_get:
  assumes "\<forall>url\<in>set urls. \<forall>data. spec_day_map (fetch url) = Some data \<longrightarrow> distinct (map fst data)"
  shows "or_zero (map_of (fold (process_url fetch) urls agg) k) =
           or_zero (map_of agg k) + (\<Sum>url\<leftarrow>urls. spec_day_score (fetch url) k)"
  using assms by (induction urls arbitrary: agg) (simp_all add: process_url_get)

lemma fold_process_url_dom:
  "dom (map_of (fold (process_url fetch) urls agg)) =
     dom (map_of agg) \<union> {k. \<exists>url\<in>set urls. spec_day_has (fetch url) k}"
  by (induction urls arbitrary: agg) (auto simp add: process_url_dom)

lemma fold_process_url_distinct:
  "distinct (map fst agg) \<Longrightarrow> distinct (map fst (fold (process_url fetch) urls agg))"
  by (induction urls arbitrary: agg) (simp_all add: process_url_distinct)

lemma getLastDaysData_sum:
  assumes "\<forall>i<n. \<forall>data. spec_day_map (fetch (dayUrl i)) = Some data \<longrightarrow> distinct (map fst data)"
  shows "obj_get (getLastDaysData n dayUrl fetch) repo =
           spec_window_sum (map (\<lambda>i. fetch (dayUrl i)) [0..<n]) repo"
proof -
  let ?agg = "fold (process_url fetch) (map dayUrl [0..<n]) []"
  have d: "distinct (map fst ?agg)" by (simp add: fold_process_url_distinct)
  have "distinct (map fst (sort_key (\<lambda>(repo, a). - a) ?agg))"
    using d by (simp add: distinct_map)
  then have "map_of (fromEntries (sort_key (\<lambda>(repo, a). - a) ?agg)) = map_of ?agg"
    using d by (simp only: map_of_fromEntries map_of_sort_key)
  then have get: "obj_get (getLastDaysData n dayUrl fetch) repo = map_of ?agg repo"
    by (simp add: getLastDaysData_def obj_get_def Let_def)
  have dom: "repo \<in> dom (map_of ?agg) \<longleftrightarrow>
             list_ex (\<lambda>r. spec_day_has r repo) (map (\<lambda>i. fetch (dayUrl i)) [0..<n])"
    by (auto simp: fold_process_url_dom list_ex_iff)
  have "\<forall>url\<in>set (map dayUrl [0..<n]). \<forall>data. spec_day_map (fetch url) = Some data
           \<longrightarrow> distinct (map fst data)"
    using assms by auto
  then have val: "or_zero (map_of ?agg repo) =
        (\<Sum>r\<leftarrow>map (\<lambda>i. fetch (dayUrl i)) [0..<n]. spec_day_score r repo)"
    using fold_process_url_get [of "map dayUrl [0..<n]" fetch "[]" repo]
    by (simp add: or_zero_def comp_def)
  show ?thesis
  proof (cases "repo \<in> dom (map_of ?agg)")
    case True
    then obtain a where "map_of ?agg repo = Some a" by auto
    then show ?thesis using True dom val get by (simp add: spec_window_sum_def or_zero_Some)
  next
    case False
    then show ?thesis using dom get by (auto simp add: spec_window_sum_def)
  qed
qed

lemma fetch_failed_day:
  assumes "fetch_failed r"
  shows "spec_day_score r repo = 0" and "\<not> spec_day_has r repo"
  using assms
  by (auto simp: fetch_failed_def spec_day_score_def spec_day_has_def spec_day_map_def
      split: fetched.splits)

lemma spec_window_sum_skip:
  assumes "fetch_failed (g j)"
  shows "spec_window_sum (map g is) repo = spec_window_sum (map g (filter (\<lambda>i. i \<noteq> j) is)) repo"
proof -
  have "(\<Sum>i\<leftarrow>is. spec_day_score (g i) repo) =
        (\<Sum>i\<leftarrow>filter (\<lambda>i. i \<noteq> j) is. spec_day_score (g i) repo)"
    using fetch_failed_day(1) [OF assms] by (induction "is") auto
  moreover have "list_ex (\<lambda>r. spec_day_has r repo) (map g is) \<longleftrightarrow>
        list_ex (\<lambda>r. spec_day_has r repo) (map g (filter (\<lambda>i. i \<noteq> j) is))"
    using fetch_failed_day(2) [OF assms] by (auto simp: list_ex_iff)
  ultimately show ?thesis by (simp add: spec_window_sum_def comp_def)
qed

text \<open>
  C2.  For the week (7 days) and the month (30 days), the aggregator returns for every
  repository the sum of its scores over the per-day score maps, and has an entry exactly
  for the repositories that occur in some day's map.  When the fetch of one day fails
  (network error or a status that is not 2xx), the result is the same sum taken over the
  remaining days: the failed day contributes nothing and the other days are unaffected.
  (Each day's response is a JSON object, so its keys are distinct.)
\<close>

theorem C2_window_sum:
  assumes "\<forall>i<30. \<forall>data. spec_day_map (fetch (dayUrl i)) = Some data \<longrightarrow> distinct (map fst data)"
  shows "obj_get (getLastWeekData dayUrl fetch) repo =
           spec_window_sum (map (\<lambda>i. fetch (dayUrl i)) [0..<7]) repo \<and>
         obj_get (getLastMonthData dayUrl fetch) repo =
           spec_window_sum (map (\<lambda>i. fetch (dayUrl i)) [0..<30]) repo \<and>
         (\<forall>j<7. fetch_failed (fetch (dayUrl j)) \<longrightarrow>
            obj_get (getLastWeekData dayUrl fetch) repo =
              spec_window_sum (map (\<lambda>i. fetch (dayUrl i)) (filter (\<lambda>i. i \<noteq> j) [0..<7])) repo) \<and>
         (\<forall>j<30. fetch_failed (fetch (dayUrl j)) \<longrightarrow>
            obj_get (getLastMonthData dayUrl fetch) repo =
              spec_window_sum (map (\<lambda>i. fetch (dayUrl i)) (filter (\<lambda>i. i \<noteq> j) [0..<30])) repo)"
proof -
  have week: "obj_get (getLastWeekData dayUrl fetch) repo =
           spec_window_sum (map (\<lambda>i. fetch (dayUrl i)) [0..<7]) repo"
  proof -
    have "\<forall>i<7. \<forall>data. spec_day_map (fetch (dayUrl i)) = Some data \<longrightarrow> distinct (map fst data)"
    proof (intro allI impI)
      fix i :: nat and data
      assume "i < 7" and m: "spec_day_map (fetch (dayUrl i)) = Some data"
      then have "i < 30" by simp
      then show "distinct (map fst data)" using assms m by blast
    qed
    then show ?thesis unfolding getLastWeekData_def by (rule getLastDaysData_sum)
  qed
  have month: "obj_get (getLastMonthData dayUrl fetch) repo =
           spec_window_sum (map (\<lambda>i. fetch (dayUrl i)) [0..<30]) repo"
    unfolding getLastMonthData_def using assms by (rule getLastDaysData_sum)
  have skip: "spec_window_sum (map (\<lambda>i. fetch (dayUrl i)) is) repo =
      spec_window_sum (map (\<lambda>i. fetch (dayUrl i)) (filter (\<lambda>i. i \<noteq> j) is)) repo"
    if "fetch_failed (fetch (dayUrl j))" for j "is"
    using spec_window_sum_skip [of "\<lambda>i. fetch (dayUrl i)" j "is" repo] that by blast
  show ?thesis
  proof (intro conjI allI impI)
    show "obj_get (getLastWeekData dayUrl fetch) repo =
           spec_window_sum (map (\<lambda>i. fetch (dayUrl i)) [0..<7]) repo"
      by (rule week)
    show "obj_get (getLastMonthData dayUrl fetch) repo =
           spec_window_sum (map (\<lambda>i. fetch (dayUrl i)) [0..<30]) repo"
      by (rule month)
    fix j assume "fetch_failed (fetch (dayUrl j))"
    then show "obj_get (getLastWeekData dayUrl fetch) repo =
              spec_window_sum (map (\<lambda>i. fetch (dayUrl i)) (filter (\<lambda>i. i \<noteq> j) [0..<7])) repo"
      using week skip [of j "[0..<7]"] by (simp only:)
  next
    fix j assume "fetch_failed (fetch (dayUrl j))"
    then show "obj_get (getLastMonthData dayUrl fetch) repo =
              spec_window_sum (map (\<lambda>i. fetch (dayUrl i)) (filter (\<lambda>i. i \<noteq> j) [0..<30])) repo"
      using month skip [of j "[0..<30]"] by (simp only:)
  qed
qed


lemma sample_days_distinct:
  "\<forall>i<30. \<forall>data. spec_day_map (sample_fetch (sample_dayUrl i)) = Some data
      \<longrightarrow> distinct (map fst data)"
  by (auto simp: spec_day_map_def sample_fetch_def response_ok_def split: if_splits)

lemma sample_week_sum:
  "spec_window_sum (map (\<lambda>i. sample_fetch (sample_dayUrl i)) (filter (\<lambda>i. i \<noteq> 1) [0..<7])) ''a/b''
     = Some 3"
  "fetch_failed (sample_fetch (sample_dayUrl 1))"
  by code_simp+

theorem C2_window_sum_witness:
  "obj_get (getLastWeekData sample_dayUrl sample_fetch) ''a/b'' = Some 3"
  using C2_window_sum [OF sample_days_distinct, of "''a/b''", THEN conjunct2, THEN conjunct2,
      THEN conjunct1, rule_format, of 1] sample_week_sum
  by simp


subsection \<open>Cache store and enrichment\<close>

text \<open>
  C5 as stated fails for the writes and deletes of \<open>DayStorage\<close>: on a store whose
  operations reject, \<open>cacheData\<close> throws "Failed to cache data" and \<open>deleteCachedData\<close>
  throws "Failed to delete cached data", and the day service, which returns
  \<open>{"a/b": 2, "c/d": 1}\<close> on a working store, throws instead of returning it.
\<close>

theorem C5_counterexample:
  "fst (cacheData broken_store ''v4-2025-01-01'' [(''0'', JStr ''a/b'')])
     = Throws ''Failed to cache data'' \<and>
   fst (deleteCachedData (broken_store :: jsval js_object kv_namespace) ''v4-2025-01-01'')
     = Throws ''Failed to delete cached data'' \<and>
   fst (getDailyStars id sample_upstream empty_store ''2025-01-01'' None)
     = Returns [(''a/b'', 2), (''c/d'', 1)] \<and>
   fst (getDailyStars id sample_upstream broken_store ''2025-01-01'' None)
     = Throws ''Failed to cache data''"
  by code_simp

text \<open>
  C5 (as amended).  A failing read is caught inside the store classes and behaves as a
  cache miss: \<open>DayStorage.getCachedData\<close> and \<open>RepositoryEnricher.getFromCache\<close> always
  return, with \<open>null\<close> when the \<open>get\<close> rejects.  \<open>RepositoryEnricher.storeInCache\<close> always
  returns and a rejected \<open>put\<close> leaves the store as it was; the entry that
  \<open>getRepositoryInfo\<close> returns does not depend on whether puts reject.
  \<open>DayStorage.cacheData\<close> and \<open>DayStorage.deleteCachedData\<close> return when the store
  operation succeeds, and when it rejects they leave the store as it was and throw
  "Failed to cache data" and "Failed to delete cached data".
\<close>

theorem C5_store_failures:
  "(\<exists>v. getCachedData kv key = Returns v) \<and>
   (\<exists>v. getFromCache kv key = Returns v) \<and>
   (get_rejects kv key \<noteq> None \<longrightarrow>
      getCachedData kv key = Returns None \<and> getFromCache kv key = Returns None) \<and>
   fst (storeInCache kv key data t) = Returns () \<and>
   (put_rejects kv key \<noteq> None \<longrightarrow> snd (storeInCache kv key data t) = kv) \<and>
   fst (getRepositoryInfo (kv'\<lparr>put_rejects := f\<rparr>) fetch repo s cfg)
     = fst (getRepositoryInfo kv' fetch repo s cfg) \<and>
   (put_rejects kv key \<noteq> None \<longrightarrow>
      cacheData kv key data = (Throws ''Failed to cache data'', kv)) \<and>
   (put_rejects kv key = None \<longrightarrow> fst (cacheData kv key data) = Returns ()) \<and>
   (delete_rejects kv key \<noteq> None \<longrightarrow>
      deleteCachedData kv key = (Throws ''Failed to delete cached data'', kv)) \<and>
   (delete_rejects kv key = None \<longrightarrow> fst (deleteCachedData kv key) = Returns ())"
proof -
  have 1: "\<exists>v. getCachedData kv key = Returns v"
    by (simp add: getCachedData_def split: outcome.splits option.splits stored.splits)
  have 2: "\<exists>v. getFromCache kv key = Returns v"
    by (simp add: getFromCache_def split: outcome.splits option.splits stored.splits)
  have 3: "get_rejects kv key \<noteq> None \<longrightarrow>
      getCachedData kv key = Returns None \<and> getFromCache kv key = Returns None"
    by (auto simp add: getCachedData_def getFromCache_def kv_get_def)
  have 4: "fst (storeInCache kv key data t) = Returns ()"
    by (simp add: storeInCache_def kv_put_def split: option.splits)
  have 5: "put_rejects kv key \<noteq> None \<longrightarrow> snd (storeInCache kv key data t) = kv"
    by (auto simp add: storeInCache_def kv_put_def)
  have 6: "fst (getRepositoryInfo (kv'\<lparr>put_rejects := f\<rparr>) fetch repo s cfg)
     = fst (getRepositoryInfo kv' fetch repo s cfg)"
    by (simp add: getRepositoryInfo_def getFromCache_def kv_get_def storeInCache_def kv_put_def
        Let_def split: outcome.splits option.splits stored.splits)
  have 7: "put_rejects kv key \<noteq> None \<longrightarrow>
      cacheData kv key data = (Throws ''Failed to cache data'', kv)"
    by (auto simp add: cacheData_def kv_put_def)
  have 8: "put_rejects kv key = None \<longrightarrow> fst (cacheData kv key data) = Returns ()"
    by (auto simp add: cacheData_def kv_put_def)
  have 9: "delete_rejects kv key \<noteq> None \<longrightarrow>
      deleteCachedData kv key = (Throws ''Failed to delete cached data'', kv)"
    by (auto simp add: deleteCachedData_def kv_delete_def)
  have 10: "delete_rejects kv key = None \<longrightarrow> fst (deleteCachedData kv key) = Returns ()"
    by (auto simp add: deleteCachedData_def kv_delete_def)
  show ?thesis using 1 2 3 4 5 6 7 8 9 10 by blast
qed

theorem C5_store_failures_witness:
  "getCachedData (broken_store :: jsval js_object kv_namespace) ''v4-2025-01-01'' = Returns None \<and>
   getFromCache (broken_store :: jsval js_object kv_namespace) ''v4-2025-01-01'' = Returns None \<and>
   snd (storeInCache broken_store ''v4-2025-01-01'' [(''0'', JStr ''a/b'')] 60) = broken_store \<and>
   cacheData broken_store ''v4-2025-01-01'' [(''0'', JStr ''a/b'')]
     = (Throws ''Failed to cache data'', broken_store) \<and>
   deleteCachedData (broken_store :: jsval js_object kv_namespace) ''v4-2025-01-01''
     = (Throws ''Failed to delete cached data'', broken_store) \<and>
   fst (cacheData empty_store ''v4-2025-01-01'' [(''0'', JStr ''a/b'')]) = Returns () \<and>
   fst (deleteCachedData (empty_store :: jsval js_object kv_namespace) ''v4-2025-01-01'') = Returns ()"
  using
    C5_store_failures [where kv = "broken_store :: jsval js_object kv_namespace"
      and key = "''v4-2025-01-01''" and data = "[(''0'', JStr ''a/b'')]" and t = 60
      and kv' = "empty_store :: string enriched kv_namespace" and f = "\<lambda>k. None"
      and fetch = metadata_down and repo = "''a/b''" and s = 2 and cfg = day_config]
    C5_store_failures [where kv = "empty_store :: jsval js_object kv_namespace"
      and key = "''v4-2025-01-01''" and data = "[(''0'', JStr ''a/b'')]" and t = 60
      and kv' = "empty_store :: string enriched kv_namespace" and f = "\<lambda>k. None"
      and fetch = metadata_down and repo = "''a/b''" and s = 2 and cfg = day_config]
  by (simp add: broken_store_def empty_store_def)

text \<open>
  C6.  On a cache miss, when the metadata fetch fails (the fetch rejects, the status is
  not 2xx, or the body does not parse), \<open>getRepositoryInfo\<close> returns
  \<open>{score, info: null, error: message}\<close> and leaves the store unchanged; a non-empty
  message is reported as it is.  Whenever a call changes the store at all, the entry it
  wrote is the returned one, with \<open>info\<close> non-null and no \<open>error\<close>.  So a later call on
  the store left by the failed one fetches again, and returns the metadata when that
  fetch succeeds.
\<close>

theorem C6_failure_not_cached:
  assumes key: "key = repoInfoCacheKey cfg repo"
    and url: "url = detailsUrl repo"
    and miss: "getFromCache kv key = Returns None"
  shows "(fetch url = Rejected msg \<longrightarrow>
            getRepositoryInfo kv fetch repo s cfg
              = (\<lparr>score = s, info = None, error = Some (error_message msg)\<rparr>, kv)) \<and>
         (fetch url = Responded status statusText body \<and> \<not> response_ok status \<longrightarrow>
            getRepositoryInfo kv fetch repo s cfg
              = (\<lparr>score = s, info = None,
                  error = Some (''Failed to fetch repository info: '' @ show_nat status @
                                '' '' @ statusText)\<rparr>, kv)) \<and>
         (fetch url = Responded status statusText (Throws msg) \<and> response_ok status \<longrightarrow>
            getRepositoryInfo kv fetch repo s cfg
              = (\<lparr>score = s, info = None, error = Some (error_message msg)\<rparr>, kv)) \<and>
         (msg \<noteq> [] \<longrightarrow> error_message msg = msg) \<and>
         (kv_entries (snd (getRepositoryInfo kv fetch repo s cfg)) \<noteq> kv_entries kv \<longrightarrow>
            info (fst (getRepositoryInfo kv fetch repo s cfg)) \<noteq> None \<and>
            error (fst (getRepositoryInfo kv fetch repo s cfg)) = None \<and>
            kv_entries (snd (getRepositoryInfo kv fetch repo s cfg))
              = (kv_entries kv)(key \<mapsto> Json (fst (getRepositoryInfo kv fetch repo s cfg)))) \<and>
         (snd (getRepositoryInfo kv fetch repo s cfg) = kv \<and>
          fetch2 url = Responded 200 statusText2 (Returns (Some i)) \<longrightarrow>
            fst (getRepositoryInfo (snd (getRepositoryInfo kv fetch repo s cfg)) fetch2 repo s2 cfg)
              = \<lparr>score = s2, info = Some i, error = None\<rparr>)"
proof -
  have 1: "fetch url = Rejected msg \<longrightarrow>
            getRepositoryInfo kv fetch repo s cfg
              = (\<lparr>score = s, info = None, error = Some (error_message msg)\<rparr>, kv)"
    using miss by (simp add: getRepositoryInfo_def Let_def key [symmetric] url [symmetric]
        fetchRepositoryInfo_def truthy_def)
  have 2: "fetch url = Responded status statusText body \<and> \<not> response_ok status \<longrightarrow>
            getRepositoryInfo kv fetch repo s cfg
              = (\<lparr>score = s, info = None,
                  error = Some (''Failed to fetch repository info: '' @ show_nat status @
                                '' '' @ statusText)\<rparr>, kv)"
    using miss by (simp add: getRepositoryInfo_def Let_def key [symmetric] url [symmetric]
        fetchRepositoryInfo_def truthy_def error_message_def)
  have 3: "fetch url = Responded status statusText (Throws msg) \<and> response_ok status \<longrightarrow>
            getRepositoryInfo kv fetch repo s cfg
              = (\<lparr>score = s, info = None, error = Some (error_message msg)\<rparr>, kv)"
    using miss by (simp add: getRepositoryInfo_def Let_def key [symmetric] url [symmetric]
        fetchRepositoryInfo_def truthy_def)
  have 4: "msg \<noteq> [] \<longrightarrow> error_message msg = msg" by (simp add: error_message_def)
  have 5: "kv_entries (snd (getRepositoryInfo kv fetch repo s cfg)) \<noteq> kv_entries kv \<longrightarrow>
            info (fst (getRepositoryInfo kv fetch repo s cfg)) \<noteq> None \<and>
            error (fst (getRepositoryInfo kv fetch repo s cfg)) = None \<and>
            kv_entries (snd (getRepositoryInfo kv fetch repo s cfg))
              = (kv_entries kv)(key \<mapsto> Json (fst (getRepositoryInfo kv fetch repo s cfg)))"
    using miss by (auto simp add: getRepositoryInfo_def Let_def key [symmetric] url [symmetric]
        fetchRepositoryInfo_def truthy_def storeInCache_def kv_put_def
        split: fetched.splits outcome.splits option.splits if_splits)
  have 6: "snd (getRepositoryInfo kv fetch repo s cfg) = kv \<and>
          fetch2 url = Responded 200 statusText2 (Returns (Some i)) \<longrightarrow>
            fst (getRepositoryInfo (snd (getRepositoryInfo kv fetch repo s cfg)) fetch2 repo s2 cfg)
              = \<lparr>score = s2, info = Some i, error = None\<rparr>"
    using miss by (auto simp add: getRepositoryInfo_def Let_def key [symmetric] url [symmetric]
        fetchRepositoryInfo_def truthy_def storeInCache_def kv_put_def response_ok_def
        split: option.splits)
  show ?thesis using 1 2 3 4 5 6 by blast
qed

lemma sample_failure_text:
  "''Failed to fetch repository info: '' @ show_nat 503 @ '' '' @ ''Service Unavailable''
     = ''Failed to fetch repository info: 503 Service Unavailable''"
  by code_simp

theorem C6_failure_not_cached_witness:
  "getRepositoryInfo empty_store metadata_down ''a/b'' 2 day_config
     = (\<lparr>score = 2, info = None,
         error = Some ''Failed to fetch repository info: 503 Service Unavailable''\<rparr>, empty_store) \<and>
   fst (getRepositoryInfo (snd (getRepositoryInfo empty_store metadata_down ''a/b'' 2 day_config))
          metadata_up ''a/b'' 3 day_config)
     = \<lparr>score = 3, info = Some (detailsUrl ''a/b''), error = None\<rparr>"
proof -
  have miss: "getFromCache (empty_store :: string enriched kv_namespace)
                (repoInfoCacheKey day_config ''a/b'') = Returns None"
    by (simp add: getFromCache_def kv_get_def empty_store_def)
  note inst = C6_failure_not_cached [OF refl refl miss, where fetch = metadata_down
      and status = 503 and statusText = "''Service Unavailable''"
      and body = "Throws ''Unexpected token''" and msg = "''Unexpected token''"
      and s = 2 and ?s2.0 = 3 and ?fetch2.0 = metadata_up and ?statusText2.0 = "''OK''" and i = "detailsUrl ''a/b''"]
  have first: "getRepositoryInfo empty_store metadata_down ''a/b'' 2 day_config
     = (\<lparr>score = 2, info = None,
         error = Some ''Failed to fetch repository info: 503 Service Unavailable''\<rparr>, empty_store)"
    using inst [THEN conjunct2, THEN conjunct1] sample_failure_text
    by (simp add: metadata_down_def response_ok_def)
  then have "snd (getRepositoryInfo empty_store metadata_down ''a/b'' 2 day_config) = empty_store"
    by simp
  then have "fst (getRepositoryInfo (snd (getRepositoryInfo empty_store metadata_down ''a/b'' 2 day_config))
          metadata_up ''a/b'' 3 day_config)
     = \<lparr>score = 3, info = Some (detailsUrl ''a/b''), error = None\<rparr>"
    using inst [THEN conjunct2, THEN conjunct2, THEN conjunct2, THEN conjunct2, THEN conjunct2]
    by (simp add: metadata_up_def)
  with first show ?thesis by blast
qed

lemma map_of_refreshScores:
  "map_of (refreshScores data enrichedData) r =
     map_option (\<lambda>e. case obj_get data r of Some s \<Rightarrow> e\<lparr>score := s\<rparr> | None \<Rightarrow> e)
       (map_of enrichedData r)"
  by (induction enrichedData) (auto simp: refreshScores_def split: option.splits)

lemma processResponse_hit:
  assumes "get_rejects responses cacheKey = None"
    and "kv_entries responses cacheKey = Some (Json cached)"
  shows "processResponse True False includeErrors limit cacheKey tf True (Returns data)
           responses kv fetch completion completion'
         = (EnrichedResponse (filterAndLimit (refreshScores data cached) includeErrors limit),
            responses, kv)"
  using assms by (simp add: processResponse_def kv_get_def Let_def)

text \<open>
  C7.  On a hit in the per-repository cache, \<open>getRepositoryInfo\<close> returns the cached entry
  with the score replaced by the current one, \<open>info\<close> and \<open>error\<close> unchanged, and does
  not touch the store.  On a hit in the cache of enriched responses, \<open>processResponse\<close>
  answers with the cached entries (filtered and limited), after it has replaced the score
  of every entry whose repository is in the current score map by the current score; it
  changes nothing else: the keys and the other fields stay, and an entry whose repository
  is not in the current map stays as cached.
\<close>

theorem C7_cache_hit_overwrites_score_only:
  "(get_rejects kv (repoInfoCacheKey cfg repo) = None \<and>
    kv_entries kv (repoInfoCacheKey cfg repo) = Some (Json cachedData) \<longrightarrow>
      getRepositoryInfo kv fetch repo s cfg = (cachedData\<lparr>score := s\<rparr>, kv) \<and>
      score (fst (getRepositoryInfo kv fetch repo s cfg)) = s \<and>
      info (fst (getRepositoryInfo kv fetch repo s cfg)) = info cachedData \<and>
      error (fst (getRepositoryInfo kv fetch repo s cfg)) = error cachedData) \<and>
   (obj_get enrichedData r = Some e \<and> obj_get data r = Some s' \<longrightarrow>
      obj_get (refreshScores data enrichedData) r = Some (e\<lparr>score := s'\<rparr>)) \<and>
   (obj_get enrichedData r = Some e \<and> obj_get data r = None \<longrightarrow>
      obj_get (refreshScores data enrichedData) r = Some e) \<and>
   map fst (refreshScores data enrichedData) = map fst enrichedData \<and>
   (get_rejects responses cacheKey = None \<and>
    kv_entries responses cacheKey = Some (Json enrichedData) \<longrightarrow>
      processResponse True False includeErrors limit cacheKey tf True (Returns data)
        responses kv' fetch' completion completion'
      = (EnrichedResponse (filterAndLimit (refreshScores data enrichedData) includeErrors limit),
         responses, kv'))"
proof -
  have 1: "get_rejects kv (repoInfoCacheKey cfg repo) = None \<and>
    kv_entries kv (repoInfoCacheKey cfg repo) = Some (Json cachedData) \<longrightarrow>
      getRepositoryInfo kv fetch repo s cfg = (cachedData\<lparr>score := s\<rparr>, kv)"
    by (simp add: getRepositoryInfo_def getFromCache_def kv_get_def Let_def)
  have 2: "map fst (refreshScores data enrichedData) = map fst enrichedData"
    by (induction enrichedData) (auto simp: refreshScores_def split: option.splits)
  have 3: "get_rejects responses cacheKey = None \<and>
    kv_entries responses cacheKey = Some (Json enrichedData) \<longrightarrow>
      processResponse True False includeErrors limit cacheKey tf True (Returns data)
        responses kv' fetch' completion completion'
      = (EnrichedResponse (filterAndLimit (refreshScores data enrichedData) includeErrors limit),
         responses, kv')"
    using processResponse_hit by blast
  have 4: "(obj_get enrichedData r = Some e \<and> obj_get data r = Some s' \<longrightarrow>
      obj_get (refreshScores data enrichedData) r = Some (e\<lparr>score := s'\<rparr>)) \<and>
   (obj_get enrichedData r = Some e \<and> obj_get data r = None \<longrightarrow>
      obj_get (refreshScores data enrichedData) r = Some e)"
    using map_of_refreshScores [of data enrichedData r] by (auto simp add: obj_get_def)
  show ?thesis
    using 1 2 3 4 by (simp only: simp_thms) auto
qed

theorem C7_cache_hit_overwrites_score_only_witness:
  "getRepositoryInfo
     (empty_store\<lparr>kv_entries := (kv_entries empty_store)
        (repoInfoCacheKey day_config ''a/b'' \<mapsto>
           Json \<lparr>score = 1, info = Some ''metadata of a/b'', error = None\<rparr>)\<rparr>)
     metadata_down ''a/b'' 7 day_config
   = (\<lparr>score = 7, info = Some ''metadata of a/b'', error = None\<rparr>,
      empty_store\<lparr>kv_entries := (kv_entries empty_store)
        (repoInfoCacheKey day_config ''a/b'' \<mapsto>
           Json \<lparr>score = 1, info = Some ''metadata of a/b'', error = None\<rparr>)\<rparr>) \<and>
   obj_get (refreshScores [(''a/b'', 7)]
              [(''a/b'', \<lparr>score = 1, info = Some ''metadata of a/b'', error = None\<rparr>)]) ''a/b''
     = Some \<lparr>score = 7, info = Some ''metadata of a/b'', error = None\<rparr>"
  using C7_cache_hit_overwrites_score_only [where
      kv = "empty_store\<lparr>kv_entries := (kv_entries empty_store)
        (repoInfoCacheKey day_config ''a/b'' \<mapsto>
           Json \<lparr>score = 1, info = Some ''metadata of a/b'', error = None\<rparr>)\<rparr>"
      and cfg = day_config and repo = "''a/b''"
      and cachedData = "\<lparr>score = 1, info = Some ''metadata of a/b'', error = None\<rparr>"
      and fetch = metadata_down and s = 7
      and enrichedData = "[(''a/b'', \<lparr>score = 1, info = Some ''metadata of a/b'', error = None\<rparr>)]"
      and data = "[(''a/b'', 7)]" and r = "''a/b''"
      and e = "\<lparr>score = 1, info = Some ''metadata of a/b'', error = None\<rparr>" and s' = 7]
  by (simp add: empty_store_def obj_get_def)


lemma set_obj_set: "set (obj_set obj k v) \<subseteq> insert (k, v) (set obj)"
  by (auto simp: obj_set_def dest: set_takeWhileD set_dropWhileD)

lemma keys_obj_set_image: "fst ` set (obj_set obj k v) = insert k (fst ` set obj)"
  using keys_obj_set [of obj k v] by simp

lemma distinct_fromEntries: "distinct (map fst (fromEntries es))"
  by (induction es rule: rev_induct) (simp_all add: fromEntries_def distinct_obj_set)

lemma keys_fromEntries: "set (map fst (fromEntries es)) = set (map fst es)"
proof (induction es rule: rev_induct)
  case Nil
  then show ?case by (simp add: fromEntries_def)
next
  case (snoc p es)
  then show ?case by (simp add: fromEntries_snoc keys_obj_set_image)
qed

lemma set_fromEntries: "set (fromEntries es) \<subseteq> set es"
proof (induction es rule: rev_induct)
  case Nil
  then show ?case by (simp add: fromEntries_def)
next
  case (snoc p es)
  then show ?case using set_obj_set [of "fromEntries es" "fst p" "snd p"]
    by (auto simp: fromEntries_snoc)
qed

lemma length_fromEntries:
  assumes "distinct (map fst es)"
  shows "length (fromEntries es) = length es"
proof -
  have "length (map fst (fromEntries es)) = card (set (map fst (fromEntries es)))"
    using distinct_fromEntries [of es] by (metis distinct_card)
  also have "\<dots> = card (set (map fst es))" by (simp only: keys_fromEntries)
  also have "\<dots> = length (map fst es)" using assms by (metis distinct_card)
  finally show ?thesis by simp
qed

lemma fold_obj_set_pairs:
  "fold (\<lambda>(key, value) acc. obj_set acc key value) es a =
   fold (\<lambda>p obj. obj_set obj (fst p) (snd p)) es a"
  by (induction es arbitrary: a) auto

lemma fold_obj_set_is_fromEntries:
  "fold (\<lambda>(key, value) acc. obj_set acc key value) es [] = fromEntries es"
  by (simp add: fromEntries_def fold_obj_set_pairs)

lemma filterAndLimit_unlimited:
  "filterAndLimit enrichedData False None =
     fromEntries (filter (\<lambda>(_, repoData). \<not> truthy (error repoData) \<and> info repoData \<noteq> None)
        enrichedData)"
  by (simp add: filterAndLimit_def fold_obj_set_is_fromEntries)

lemma filterAndLimit_limit_after_filter:
  "filterAndLimit enrichedData False limit =
     filterAndLimit (filterAndLimit enrichedData False None) True limit"
  by (simp add: filterAndLimit_def Let_def)

lemma set_filterAndLimit:
  "set (filterAndLimit enrichedData False limit) \<subseteq>
     {p \<in> set enrichedData. \<not> truthy (error (snd p)) \<and> info (snd p) \<noteq> None}"
proof -
  have a: "set (filterAndLimit enrichedData False None) \<subseteq>
     {p \<in> set enrichedData. \<not> truthy (error (snd p)) \<and> info (snd p) \<noteq> None}"
    unfolding filterAndLimit_unlimited using set_fromEntries by fastforce
  have b: "set (filterAndLimit xs True limit) \<subseteq> set xs" for xs :: "'a enriched js_object"
  proof -
    have "set (fromEntries (slice0 xs l)) \<subseteq> set xs" for l
    proof -
      have "set (slice0 xs l) \<subseteq> set xs" by (simp add: slice0_def set_take_subset)
      then show ?thesis using set_fromEntries [of "slice0 xs l"] by blast
    qed
    then show ?thesis by (auto simp: filterAndLimit_def Let_def split: option.splits)
  qed
  show ?thesis using a b [of "filterAndLimit enrichedData False None"]
    by (subst filterAndLimit_limit_after_filter) blast
qed

lemma failed_entries_absent:
  assumes "distinct (map fst enrichedData)" and "(k, e) \<in> set enrichedData" and "info e = None"
  shows "obj_get (filterAndLimit enrichedData False limit) k = None"
proof (rule ccontr)
  assume "obj_get (filterAndLimit enrichedData False limit) k \<noteq> None"
  then obtain e' where "(k, e') \<in> set (filterAndLimit enrichedData False limit)"
    by (auto simp: obj_get_def dest: map_of_SomeD)
  then have "(k, e') \<in> set enrichedData" "info e' \<noteq> None"
    using set_filterAndLimit [of enrichedData limit] by auto
  then have "map_of enrichedData k = Some e'" "map_of enrichedData k = Some e"
    using map_of_is_SomeI [OF assms(1)] assms(2) by blast+
  then show False using assms(3) \<open>info e' \<noteq> None\<close> by simp
qed

lemma length_filtered:
  assumes "distinct (map fst enrichedData)"
    and "\<forall>p\<in>set enrichedData. entry_clean (snd p)"
  shows "length (filterAndLimit enrichedData False None) =
         length enrichedData - length (filter (\<lambda>(k, e). info e = None) enrichedData)"
proof -
  have same: "filter (\<lambda>(_, repoData). \<not> truthy (error repoData) \<and> info repoData \<noteq> None) enrichedData
        = filter (\<lambda>p. \<not> (case p of (k, e) \<Rightarrow> info e = None)) enrichedData"
    using assms(2) by (intro filter_cong) (auto simp: entry_clean_def)
  have "distinct (map fst (filter (\<lambda>p. \<not> (case p of (k, e) \<Rightarrow> info e = None)) enrichedData))"
    using assms(1) by (simp add: distinct_map_filter)
  then have "length (filterAndLimit enrichedData False None) =
        length (filter (\<lambda>p. \<not> (case p of (k, e) \<Rightarrow> info e = None)) enrichedData)"
    unfolding filterAndLimit_unlimited same by (rule length_fromEntries)
  also have "\<dots> = length enrichedData - length (filter (\<lambda>(k, e). info e = None) enrichedData)"
    using sum_length_filter_compl [of "\<lambda>(k, e). info e = None" enrichedData] by simp
  finally show ?thesis .
qed

lemma getFromCache_cases:
  "getFromCache kv k = Returns None \<or>
   (\<exists>c. getFromCache kv k = Returns (Some c) \<and> kv_entries kv k = Some (Json c))"
  by (auto simp: getFromCache_def kv_get_def split: option.splits stored.splits)

lemma fetchRepositoryInfo_clean:
  "\<exists>e. fetchRepositoryInfo fetch repo s = Returns e \<and> entry_clean e"
  by (auto simp: fetchRepositoryInfo_def entry_clean_def truthy_def
      split: fetched.splits outcome.splits)

lemma storeInCache_cases:
  "storeInCache kv k e t = (Returns (), kv) \<or>
   storeInCache kv k e t = (Returns (), kv\<lparr>kv_entries := (kv_entries kv)(k \<mapsto> Json e)\<rparr>)"
  by (auto simp: storeInCache_def kv_put_def split: option.splits)

lemma getRepositoryInfo_cases:
  "(\<exists>c. kv_entries kv (repoInfoCacheKey cfg repo) = Some (Json c) \<and>
        getRepositoryInfo kv fetch repo s cfg = (c\<lparr>score := s\<rparr>, kv)) \<or>
   (\<exists>e. entry_clean e \<and> fetchRepositoryInfo fetch repo s = Returns e \<and>
        (getRepositoryInfo kv fetch repo s cfg = (e, kv) \<or>
         info e \<noteq> None \<and> \<not> truthy (error e) \<and>
         getRepositoryInfo kv fetch repo s cfg
           = (e, kv\<lparr>kv_entries := (kv_entries kv)(repoInfoCacheKey cfg repo \<mapsto> Json e)\<rparr>)))"
proof -
  obtain e where e: "fetchRepositoryInfo fetch repo s = Returns e" "entry_clean e"
    using fetchRepositoryInfo_clean by blast
  consider (miss) "getFromCache kv (repoInfoCacheKey cfg repo) = Returns None"
    | (hit) c where "getFromCache kv (repoInfoCacheKey cfg repo) = Returns (Some c)"
        "kv_entries kv (repoInfoCacheKey cfg repo) = Some (Json c)"
    using getFromCache_cases by blast
  then show ?thesis
  proof cases
    case miss
    show ?thesis
      using storeInCache_cases [of kv "repoInfoCacheKey cfg repo" e "ttl cfg"] e miss
      by (auto simp: getRepositoryInfo_def Let_def)
  next
    case hit
    then show ?thesis by (simp add: getRepositoryInfo_def Let_def)
  qed
qed

lemma getRepositoryInfo_clean:
  assumes "cache_clean kv"
  shows "entry_clean (fst (getRepositoryInfo kv fetch repo s cfg))"
    and "cache_clean (snd (getRepositoryInfo kv fetch repo s cfg))"
  using assms getRepositoryInfo_cases [of kv cfg repo fetch s]
  by (auto simp: cache_clean_def entry_clean_def split: if_splits)

lemma enrich_fold_invariant:
  assumes "cache_clean kv" and "\<forall>p\<in>set acc. entry_clean (snd p)" and "distinct (map fst acc)"
  shows "cache_clean (snd (fold (enrich_one fetch cfg) data (acc, kv))) \<and>
         (\<forall>p\<in>set (fst (fold (enrich_one fetch cfg) data (acc, kv))). entry_clean (snd p)) \<and>
         distinct (map fst (fst (fold (enrich_one fetch cfg) data (acc, kv)))) \<and>
         set (map fst (fst (fold (enrich_one fetch cfg) data (acc, kv))))
           = set (map fst acc) \<union> set (map fst data)"
  using assms
proof (induction data arbitrary: acc kv)
  case Nil
  then show ?case by simp
next
  case (Cons p data)
  obtain repo s where p: "p = (repo, s)" by (cases p)
  obtain result kv' where r: "getRepositoryInfo kv fetch repo s cfg = (result, kv')"
    by (cases "getRepositoryInfo kv fetch repo s cfg")
  have step: "enrich_one fetch cfg p (acc, kv) = (obj_set acc repo result, kv')"
    by (simp add: enrich_one_def p r)
  have clean: "entry_clean result" "cache_clean kv'"
    using getRepositoryInfo_clean [OF Cons.prems(1), of fetch repo s cfg] r by simp_all
  have acc': "\<forall>q\<in>set (obj_set acc repo result). entry_clean (snd q)"
    using Cons.prems(2) clean(1) set_obj_set [of acc repo result] by auto
  have d: "distinct (map fst (obj_set acc repo result))"
    using Cons.prems(3) by (rule distinct_obj_set)
  have "fold (enrich_one fetch cfg) (p # data) (acc, kv)
        = fold (enrich_one fetch cfg) data (obj_set acc repo result, kv')"
    by (simp add: step)
  moreover have "set (map fst (obj_set acc repo result)) \<union> set (map fst data)
        = set (map fst acc) \<union> set (map fst (p # data))"
    using p by (simp add: keys_obj_set_image)
  ultimately show ?case
    using Cons.IH [OF clean(2) acc' d] by simp
qed

lemma settled_valid:
  assumes "completion_order c (length xs)"
  shows "settled c xs = map (\<lambda>i. xs ! i) c"
proof -
  have "filter (\<lambda>i. i < length xs) c = c"
    using assms by (auto simp: completion_order_def filter_id_conv)
  then show ?thesis by (simp add: settled_def)
qed

lemma set_settled:
  assumes "completion_order c (length xs)"
  shows "set (settled c xs) = set xs"
proof -
  have "set (settled c xs) = (\<lambda>i. xs ! i) ` {0..<length xs}"
    using assms by (simp add: settled_valid completion_order_def)
  also have "\<dots> = set xs" by (auto simp: set_conv_nth)
  finally show ?thesis .
qed

lemma distinct_settled:
  assumes "completion_order c (length xs)" and "distinct (map f xs)"
  shows "distinct (map f (settled c xs))"
proof -
  have "inj_on (\<lambda>i. f (xs ! i)) (set c)"
  proof (rule inj_onI)
    fix i j assume "i \<in> set c" "j \<in> set c" "f (xs ! i) = f (xs ! j)"
    then have "i < length (map f xs)" "j < length (map f xs)" "map f xs ! i = map f xs ! j"
      using assms(1) by (auto simp: completion_order_def)
    then show "i = j" using assms(2) nth_eq_iff_index_eq by blast
  qed
  then have "distinct (map (\<lambda>i. f (xs ! i)) c)"
    using assms(1) by (simp add: distinct_map completion_order_def)
  then show ?thesis using assms(1) by (simp add: settled_valid comp_def)
qed

lemma length_filter_settled:
  assumes "completion_order c (length xs)" and "distinct xs"
  shows "length (filter P (settled c xs)) = length (filter P xs)"
proof -
  have d: "distinct (settled c xs)"
    using distinct_settled [OF assms(1), of "\<lambda>x. x"] assms(2) by simp
  have "length (filter P (settled c xs)) = card ({x. P x} \<inter> set (settled c xs))"
    using d by (rule distinct_length_filter)
  also have "\<dots> = card ({x. P x} \<inter> set xs)" by (simp only: set_settled [OF assms(1)])
  also have "\<dots> = length (filter P xs)"
    using assms(2) by (rule distinct_length_filter [symmetric])
  finally show ?thesis .
qed

lemma length_settled:
  assumes "completion_order c (length xs)"
  shows "length (settled c xs) = length xs"
proof -
  have "distinct c" using assms by (simp add: completion_order_def)
  then have "card (set c) = length c" by (rule distinct_card)
  moreover have "card (set c) = length xs" using assms by (simp add: completion_order_def)
  ultimately show ?thesis using assms by (simp add: settled_valid)
qed

lemma enrichRepositories_invariant:
  assumes "distinct (map fst data)" and "cache_clean kv"
    and "completion_order c (length data)"
  shows "distinct (map fst (fst (enrichRepositories kv fetch data cfg c)))"
    and "\<forall>p\<in>set (fst (enrichRepositories kv fetch data cfg c)). entry_clean (snd p)"
    and "set (map fst (fst (enrichRepositories kv fetch data cfg c))) = set (map fst data)"
    and "length (fst (enrichRepositories kv fetch data cfg c)) = length data"
proof -
  let ?config = "case cfg of None \<Rightarrow> \<lparr>ttl = 3600, timeframe = Day\<rparr> | Some c \<Rightarrow> c"
  let ?out = "fst (fold (enrich_one fetch ?config) (settled c data) ([], kv))"
  have out: "fst (enrichRepositories kv fetch data cfg c) = ?out"
    by (simp add: enrichRepositories_def Let_def)
  have keys: "set (map fst (settled c data)) = set (map fst data)"
    using set_settled [OF assms(3)] by simp
  have inv: "(\<forall>p\<in>set ?out. entry_clean (snd p)) \<and> distinct (map fst ?out) \<and>
             set (map fst ?out) = set (map fst data)"
    using enrich_fold_invariant [OF assms(2), of "[]" fetch ?config "settled c data"] keys
    by simp
  show "distinct (map fst (fst (enrichRepositories kv fetch data cfg c)))"
    and "\<forall>p\<in>set (fst (enrichRepositories kv fetch data cfg c)). entry_clean (snd p)"
    and "set (map fst (fst (enrichRepositories kv fetch data cfg c))) = set (map fst data)"
    using inv unfolding out by blast+
  have "length (map fst ?out) = card (set (map fst ?out))"
    using inv by (metis distinct_card)
  also have "\<dots> = card (set (map fst data))" using inv by simp
  also have "\<dots> = length (map fst data)" using assms(1) by (metis distinct_card)
  finally show "length (fst (enrichRepositories kv fetch data cfg c)) = length data"
    by (simp add: out)
qed

lemma repoInfoCacheKey_inject:
  "repoInfoCacheKey cfg r = repoInfoCacheKey cfg r' \<longleftrightarrow> r = r'"
  by (simp add: repoInfoCacheKey_def)

lemma getRepositoryInfo_result_local:
  assumes "get_rejects kv' (repoInfoCacheKey cfg repo) = get_rejects kv (repoInfoCacheKey cfg repo)"
    and "kv_entries kv' (repoInfoCacheKey cfg repo) = kv_entries kv (repoInfoCacheKey cfg repo)"
  shows "fst (getRepositoryInfo kv' fetch repo s cfg) = fst (getRepositoryInfo kv fetch repo s cfg)"
  using assms
  by (auto simp: getRepositoryInfo_def getFromCache_def kv_get_def storeInCache_def kv_put_def
      Let_def split: option.splits stored.splits outcome.splits prod.splits)

lemma getRepositoryInfo_store_local:
  "get_rejects (snd (getRepositoryInfo kv fetch repo s cfg)) = get_rejects kv \<and>
   (\<forall>k. k \<noteq> repoInfoCacheKey cfg repo \<longrightarrow>
      kv_entries (snd (getRepositoryInfo kv fetch repo s cfg)) k = kv_entries kv k)"
  using getRepositoryInfo_cases [of kv cfg repo fetch s] by auto

lemma obj_set_append:
  assumes "k \<notin> set (map fst obj)" and "\<not> is_array_index k"
  shows "obj_set obj k v = obj @ [(k, v)]"
  using assms by (simp add: obj_set_def)

lemma enrich_fold_entries:
  assumes "distinct (map fst es)"
    and "set (map fst es) \<inter> set (map fst acc) = {}"
    and "\<forall>p\<in>set es. \<not> is_array_index (fst p)"
    and "get_rejects kv' = get_rejects kv"
    and "\<forall>p\<in>set es. kv_entries kv' (repoInfoCacheKey cfg (fst p))
                      = kv_entries kv (repoInfoCacheKey cfg (fst p))"
  shows "fst (fold (enrich_one fetch cfg) es (acc, kv'))
         = acc @ map (\<lambda>(repo, s). (repo, fst (getRepositoryInfo kv fetch repo s cfg))) es"
  using assms
proof (induction es arbitrary: acc kv')
  case Nil
  then show ?case by simp
next
  case (Cons p es)
  obtain repo s where p: "p = (repo, s)" by (cases p)
  obtain result kv1 where r: "getRepositoryInfo kv' fetch repo s cfg = (result, kv1)"
    by (cases "getRepositoryInfo kv' fetch repo s cfg")
  have res: "result = fst (getRepositoryInfo kv fetch repo s cfg)"
    using getRepositoryInfo_result_local [of kv' cfg repo kv fetch s] Cons.prems(4,5) r p by simp
  have loc: "get_rejects kv1 = get_rejects kv'"
    "\<And>k. k \<noteq> repoInfoCacheKey cfg repo \<Longrightarrow> kv_entries kv1 k = kv_entries kv' k"
    using getRepositoryInfo_store_local [of kv' fetch repo s cfg] r by simp_all
  have fresh: "repo \<notin> set (map fst acc)" "\<not> is_array_index repo" "repo \<notin> set (map fst es)"
    using Cons.prems(1,2,3) p by auto
  have step: "enrich_one fetch cfg p (acc, kv') = (acc @ [(repo, result)], kv1)"
    by (simp add: enrich_one_def p r obj_set_append [OF fresh(1,2)])
  have a: "distinct (map fst es)" using Cons.prems(1) by simp
  have b: "set (map fst es) \<inter> set (map fst (acc @ [(repo, result)])) = {}"
    using Cons.prems(1,2) p by auto
  have c: "\<forall>p\<in>set es. \<not> is_array_index (fst p)" using Cons.prems(3) by simp
  have d: "get_rejects kv1 = get_rejects kv" using loc(1) Cons.prems(4) by simp
  have e: "\<forall>q\<in>set es. kv_entries kv1 (repoInfoCacheKey cfg (fst q))
                      = kv_entries kv (repoInfoCacheKey cfg (fst q))"
  proof
    fix q assume q: "q \<in> set es"
    then have "fst q \<noteq> repo" using fresh(3) by auto
    then have "repoInfoCacheKey cfg (fst q) \<noteq> repoInfoCacheKey cfg repo"
      by (simp add: repoInfoCacheKey_inject)
    then show "kv_entries kv1 (repoInfoCacheKey cfg (fst q))
                      = kv_entries kv (repoInfoCacheKey cfg (fst q))"
      using loc(2) Cons.prems(5) q by simp
  qed
  have "fst (fold (enrich_one fetch cfg) (p # es) (acc, kv'))
        = fst (fold (enrich_one fetch cfg) es (acc @ [(repo, result)], kv1))"
    by (simp add: step)
  also have "\<dots> = (acc @ [(repo, result)]) @
       map (\<lambda>(repo, s). (repo, fst (getRepositoryInfo kv fetch repo s cfg))) es"
    by (rule Cons.IH [OF a b c d e])
  finally show ?case by (simp add: p res)
qed

lemma enrichRepositories_entries:
  assumes "distinct (map fst data)" and "\<forall>p\<in>set data. \<not> is_array_index (fst p)"
    and "completion_order c (length data)"
  shows "fst (enrichRepositories kv fetch data (Some cfg) c)
         = map (\<lambda>(repo, s). (repo, fst (getRepositoryInfo kv fetch repo s cfg)))
             (settled c data)"
proof -
  have d: "distinct (map fst (settled c data))" using assms(3,1) by (rule distinct_settled)
  have i: "\<forall>p\<in>set (settled c data). \<not> is_array_index (fst p)"
    using assms(2) set_settled [OF assms(3)] by simp
  show ?thesis
    unfolding enrichRepositories_def Let_def
    using enrich_fold_entries [OF d _ i, of "[]" kv kv] by simp
qed

lemma failed_count_entries:
  assumes "distinct (map fst data)" and "completion_order c (length data)"
  shows "length (filter (\<lambda>(k, e). info e = None)
           (map (\<lambda>(repo, s). (repo, fst (getRepositoryInfo kv fetch repo s cfg)))
              (settled c data)))
         = length (filter (\<lambda>(repo, s). info (fst (getRepositoryInfo kv fetch repo s cfg)) = None)
             data)"
proof -
  have d: "distinct data" using assms(1) by (simp add: distinct_map)
  have same: "((\<lambda>(k, e). info e = None) \<circ>
               (\<lambda>(repo, s). (repo, fst (getRepositoryInfo kv fetch repo s cfg))))
        = (\<lambda>(repo, s). info (fst (getRepositoryInfo kv fetch repo s cfg)) = None)"
    by (auto simp: fun_eq_iff)
  show ?thesis
    by (simp only: filter_map length_map same length_filter_settled [OF assms(2) d])
qed

lemma sample_call_ok:
  "repo \<noteq> ''c/d'' \<Longrightarrow>
   fst (getRepositoryInfo empty_store metadata_partial repo s day_config)
     = \<lparr>score = s, info = Some (detailsUrl repo), error = None\<rparr>"
  by (simp add: getRepositoryInfo_def getFromCache_def kv_get_def empty_store_def
      fetchRepositoryInfo_def metadata_partial_def response_ok_def detailsUrl_def
      truthy_def storeInCache_def kv_put_def Let_def)

lemma sample_status_text:
  "''Failed to fetch repository info: '' @ show_nat 404 @ '' '' @ ''Not Found''
     = ''Failed to fetch repository info: 404 Not Found''"
  by code_simp

lemma sample_call_failed:
  "fst (getRepositoryInfo empty_store metadata_partial ''c/d'' s day_config)
     = \<lparr>score = s, info = None,
        error = Some ''Failed to fetch repository info: 404 Not Found''\<rparr>"
  using sample_status_text
  by (simp add: getRepositoryInfo_def getFromCache_def kv_get_def empty_store_def
      fetchRepositoryInfo_def metadata_partial_def response_ok_def
      truthy_def error_message_def Let_def del: show_nat.simps)

lemma sample_completion: "completion_order last_first (length sample_scores)"
  by (auto simp: completion_order_def sample_scores_def last_first_def)

lemma sample_settled:
  "settled last_first sample_scores = [(''e/f'', 1), (''c/d'', 2), (''a/b'', 3)]"
  by (simp add: settled_def sample_scores_def last_first_def)

lemma sample_keys:
  "distinct (map fst sample_scores) \<and> (\<forall>p\<in>set sample_scores. \<not> is_array_index (fst p))"
  by (simp add: sample_scores_def is_array_index_def is_digit_def)

lemma sample_limit:
  "filterAndLimit
     [(''e/f'', \<lparr>score = 1, info = Some (detailsUrl ''e/f''), error = None\<rparr>),
      (''c/d'', \<lparr>score = 2, info = None,
                 error = Some ''Failed to fetch repository info: 404 Not Found''\<rparr>),
      (''a/b'', \<lparr>score = 3, info = Some (detailsUrl ''a/b''), error = None\<rparr>)] False (Some 1)
   = [(''e/f'', \<lparr>score = 1, info = Some (detailsUrl ''e/f''), error = None\<rparr>)]"
  by (simp add: filterAndLimit_def truthy_def obj_set_def is_array_index_def is_digit_def
      slice0_def fromEntries_def Let_def)

lemma sample_in_input_order:
  "fst (processResponse True True False (Some 1) ''enriched:day:0:1:no_errors'' Day True
          (Returns sample_scores) empty_store empty_store metadata_partial [0, 1, 2] [])
     = EnrichedResponse
         [(''a/b'', \<lparr>score = 3, info = Some (detailsUrl ''a/b''), error = None\<rparr>)]"
proof -
  have o: "completion_order [0, 1, 2] (length sample_scores)"
    by (auto simp: completion_order_def sample_scores_def)
  have s: "settled [0, 1, 2] sample_scores = sample_scores"
    by (simp add: settled_def sample_scores_def)
  have cfg: "\<lparr>ttl = getTtlForTimeframe Day, timeframe = Day\<rparr> = day_config"
    by (simp add: day_config_def)
  have e: "fst (enrichRepositories empty_store metadata_partial sample_scores (Some day_config)
               [0, 1, 2])
        = [(''a/b'', \<lparr>score = 3, info = Some (detailsUrl ''a/b''), error = None\<rparr>),
           (''c/d'', \<lparr>score = 2, info = None,
                      error = Some ''Failed to fetch repository info: 404 Not Found''\<rparr>),
           (''e/f'', \<lparr>score = 1, info = Some (detailsUrl ''e/f''), error = None\<rparr>)]"
    unfolding enrichRepositories_entries [OF conjunct1 [OF sample_keys] conjunct2 [OF sample_keys] o] s
    by (simp add: sample_scores_def sample_call_ok sample_call_failed)
  have pr: "fst (processResponse True True False (Some 1) ''enriched:day:0:1:no_errors'' Day True
          (Returns sample_scores) empty_store empty_store metadata_partial [0, 1, 2] [])
     = EnrichedResponse (filterAndLimit
         (fst (enrichRepositories empty_store metadata_partial sample_scores
                 (Some \<lparr>ttl = getTtlForTimeframe Day, timeframe = Day\<rparr>) [0, 1, 2]))
         False (Some 1))"
    by (simp add: processResponse_def Let_def)
  show ?thesis
    unfolding pr cfg e
    by (simp add: filterAndLimit_def truthy_def obj_set_def is_array_index_def is_digit_def
        slice0_def fromEntries_def Let_def)
qed

text \<open>
  C4.  With \<open>include_errors = false\<close>: every entry whose \<open>info\<close> is null is absent from
  the returned map, with or without a limit; the limit is applied to the map that the
  filter has produced; and without a limit the size of the returned map is the number of
  entries minus the number of entries whose \<open>info\<close> is null.  (Entries are as the enricher
  makes and caches them: an entry with an error message has no \<open>info\<close>.)  In whatever
  order the calls settle, the enrichment of a score map has exactly one entry per input
  repository, so this size is the number of input repositories minus the number of
  failed ones.  For repository identifiers (which are not array indices) the entries of
  the enrichment stand in the order in which the calls settle, each one the result of the
  call for its own repository on the store as it was at the start, and the number of
  failed entries is the number of input repositories whose call yields no \<open>info\<close>.  With
  \<open>bypass_cache\<close> the body of the response of \<open>processResponse\<close> is the filtered and
  limited enrichment of the score map; under a limit it therefore keeps the first
  successful entries in the order of completion.
\<close>

theorem C4_filter_before_limit:
  "(distinct (map fst enrichedData) \<longrightarrow>
      (\<forall>k e. (k, e) \<in> set enrichedData \<and> info e = None \<longrightarrow>
         obj_get (filterAndLimit enrichedData False limit) k = None)) \<and>
   filterAndLimit enrichedData False limit
     = filterAndLimit (filterAndLimit enrichedData False None) True limit \<and>
   (distinct (map fst enrichedData) \<and> (\<forall>p\<in>set enrichedData. entry_clean (snd p)) \<longrightarrow>
      length (filterAndLimit enrichedData False None)
        = length enrichedData - length (filter (\<lambda>(k, e). info e = None) enrichedData)) \<and>
   (distinct (map fst data) \<and> cache_clean kv \<and> completion_order c (length data) \<longrightarrow>
      distinct (map fst (fst (enrichRepositories kv fetch data cfg c))) \<and>
      (\<forall>p\<in>set (fst (enrichRepositories kv fetch data cfg c)). entry_clean (snd p)) \<and>
      set (map fst (fst (enrichRepositories kv fetch data cfg c))) = set (map fst data) \<and>
      length (fst (enrichRepositories kv fetch data cfg c)) = length data \<and>
      length (filterAndLimit (fst (enrichRepositories kv fetch data cfg c)) False None)
        = length data - length (filter (\<lambda>(k, e). info e = None)
                                         (fst (enrichRepositories kv fetch data cfg c)))) \<and>
   (distinct (map fst data) \<and> (\<forall>p\<in>set data. \<not> is_array_index (fst p)) \<and>
    completion_order c (length data) \<longrightarrow>
      fst (enrichRepositories kv fetch data (Some config) c)
        = map (\<lambda>(repo, s). (repo, fst (getRepositoryInfo kv fetch repo s config)))
            (settled c data) \<and>
      length (filter (\<lambda>(k, e). info e = None)
                (fst (enrichRepositories kv fetch data (Some config) c)))
        = length (filter (\<lambda>(repo, s).
                    info (fst (getRepositoryInfo kv fetch repo s config)) = None) data)) \<and>
   fst (processResponse True True includeErrors limit cacheKey tf True (Returns data)
          responses kv fetch c c')
     = EnrichedResponse
         (filterAndLimit
            (fst (enrichRepositories kv fetch data
                    (Some \<lparr>ttl = getTtlForTimeframe tf, timeframe = tf\<rparr>) c))
            includeErrors limit)"
proof -
  have 1: "distinct (map fst enrichedData) \<longrightarrow>
      (\<forall>k e. (k, e) \<in> set enrichedData \<and> info e = None \<longrightarrow>
         obj_get (filterAndLimit enrichedData False limit) k = None)"
    using failed_entries_absent by blast
  have 2: "filterAndLimit enrichedData False limit
     = filterAndLimit (filterAndLimit enrichedData False None) True limit"
    by (rule filterAndLimit_limit_after_filter)
  have 3: "distinct (map fst enrichedData) \<and> (\<forall>p\<in>set enrichedData. entry_clean (snd p)) \<longrightarrow>
      length (filterAndLimit enrichedData False None)
        = length enrichedData - length (filter (\<lambda>(k, e). info e = None) enrichedData)"
    using length_filtered by blast
  have 4: "distinct (map fst data) \<and> cache_clean kv \<and> completion_order c (length data) \<longrightarrow>
      distinct (map fst (fst (enrichRepositories kv fetch data cfg c))) \<and>
      (\<forall>p\<in>set (fst (enrichRepositories kv fetch data cfg c)). entry_clean (snd p)) \<and>
      set (map fst (fst (enrichRepositories kv fetch data cfg c))) = set (map fst data) \<and>
      length (fst (enrichRepositories kv fetch data cfg c)) = length data \<and>
      length (filterAndLimit (fst (enrichRepositories kv fetch data cfg c)) False None)
        = length data - length (filter (\<lambda>(k, e). info e = None)
                                         (fst (enrichRepositories kv fetch data cfg c)))"
  proof
    assume a: "distinct (map fst data) \<and> cache_clean kv \<and> completion_order c (length data)"
    then have a1: "distinct (map fst data)" and a2: "cache_clean kv"
      and a3: "completion_order c (length data)" by simp_all
    note inv = enrichRepositories_invariant [OF a1 a2 a3, of fetch cfg]
    show "distinct (map fst (fst (enrichRepositories kv fetch data cfg c))) \<and>
      (\<forall>p\<in>set (fst (enrichRepositories kv fetch data cfg c)). entry_clean (snd p)) \<and>
      set (map fst (fst (enrichRepositories kv fetch data cfg c))) = set (map fst data) \<and>
      length (fst (enrichRepositories kv fetch data cfg c)) = length data \<and>
      length (filterAndLimit (fst (enrichRepositories kv fetch data cfg c)) False None)
        = length data - length (filter (\<lambda>(k, e). info e = None)
                                         (fst (enrichRepositories kv fetch data cfg c)))"
      using inv length_filtered [OF inv(1) inv(2)] by (simp only: simp_thms)
  qed
  have 5: "distinct (map fst data) \<and> (\<forall>p\<in>set data. \<not> is_array_index (fst p)) \<and>
    completion_order c (length data) \<longrightarrow>
      fst (enrichRepositories kv fetch data (Some config) c)
        = map (\<lambda>(repo, s). (repo, fst (getRepositoryInfo kv fetch repo s config)))
            (settled c data) \<and>
      length (filter (\<lambda>(k, e). info e = None)
                (fst (enrichRepositories kv fetch data (Some config) c)))
        = length (filter (\<lambda>(repo, s).
                    info (fst (getRepositoryInfo kv fetch repo s config)) = None) data)"
  proof
    assume a: "distinct (map fst data) \<and> (\<forall>p\<in>set data. \<not> is_array_index (fst p)) \<and>
      completion_order c (length data)"
    then have a1: "distinct (map fst data)" and a2: "\<forall>p\<in>set data. \<not> is_array_index (fst p)"
      and a3: "completion_order c (length data)" by simp_all
    note ent = enrichRepositories_entries [OF a1 a2 a3, of kv fetch config]
    show "fst (enrichRepositories kv fetch data (Some config) c)
        = map (\<lambda>(repo, s). (repo, fst (getRepositoryInfo kv fetch repo s config)))
            (settled c data) \<and>
      length (filter (\<lambda>(k, e). info e = None)
                (fst (enrichRepositories kv fetch data (Some config) c)))
        = length (filter (\<lambda>(repo, s).
                    info (fst (getRepositoryInfo kv fetch repo s config)) = None) data)"
      using ent failed_count_entries [OF a1 a3, of kv fetch config] by (simp only: simp_thms)
  qed
  have 6: "fst (processResponse True True includeErrors limit cacheKey tf True (Returns data)
          responses kv fetch c c')
     = EnrichedResponse
         (filterAndLimit
            (fst (enrichRepositories kv fetch data
                    (Some \<lparr>ttl = getTtlForTimeframe tf, timeframe = tf\<rparr>) c))
            includeErrors limit)"
    by (simp add: processResponse_def Let_def)
  show ?thesis using 1 2 3 4 5 6 by (intro conjI)
qed

theorem C4_filter_before_limit_witness:
  "fst (enrichRepositories empty_store metadata_partial sample_scores (Some day_config) last_first)
     = [(''e/f'', \<lparr>score = 1, info = Some (detailsUrl ''e/f''), error = None\<rparr>),
        (''c/d'', \<lparr>score = 2, info = None,
                   error = Some ''Failed to fetch repository info: 404 Not Found''\<rparr>),
        (''a/b'', \<lparr>score = 3, info = Some (detailsUrl ''a/b''), error = None\<rparr>)] \<and>
   length (filterAndLimit
             (fst (enrichRepositories empty_store metadata_partial sample_scores
                     (Some day_config) last_first)) False None) = 2 \<and>
   obj_get (filterAndLimit
             (fst (enrichRepositories empty_store metadata_partial sample_scores
                     (Some day_config) last_first)) False (Some 1)) ''c/d'' = None \<and>
   fst (processResponse True True False (Some 1) ''enriched:day:0:1:no_errors'' Day True
          (Returns sample_scores) empty_store empty_store metadata_partial last_first [])
     = EnrichedResponse
         [(''e/f'', \<lparr>score = 1, info = Some (detailsUrl ''e/f''), error = None\<rparr>)]"
proof -
  let ?out = "[(''e/f'', \<lparr>score = 1, info = Some (detailsUrl ''e/f''), error = None\<rparr>),
        (''c/d'', \<lparr>score = 2, info = None,
                   error = Some ''Failed to fetch repository info: 404 Not Found''\<rparr>),
        (''a/b'', \<lparr>score = 3, info = Some (detailsUrl ''a/b''), error = None\<rparr>)]"
  have clean: "cache_clean (empty_store :: string enriched kv_namespace)"
    by (simp add: cache_clean_def empty_store_def)
  note inst = C4_filter_before_limit [where data = sample_scores
      and kv = "empty_store :: string enriched kv_namespace" and fetch = metadata_partial
      and cfg = "Some day_config" and config = day_config and c = "last_first" and c' = "[]"
      and enrichedData = ?out and limit = "Some 1" and includeErrors = False
      and tf = Day and cacheKey = "''enriched:day:0:1:no_errors''"
      and responses = "empty_store"]
  have a: "fst (enrichRepositories empty_store metadata_partial sample_scores (Some day_config)
                  last_first) = ?out"
    using inst [THEN conjunct2, THEN conjunct2, THEN conjunct2, THEN conjunct2, THEN conjunct1]
      sample_keys sample_completion
    by (simp add: sample_settled sample_call_ok sample_call_failed)
  have pre: "distinct (map fst sample_scores) \<and>
      cache_clean (empty_store :: string enriched kv_namespace) \<and>
      completion_order last_first (length sample_scores)"
    using sample_keys sample_completion clean by blast
  have "length (filterAndLimit
             (fst (enrichRepositories empty_store metadata_partial sample_scores
                     (Some day_config) last_first)) False None)
        = length sample_scores - length (filter (\<lambda>(k, e). info e = None)
             (fst (enrichRepositories empty_store metadata_partial sample_scores
                     (Some day_config) last_first)))"
    using inst [THEN conjunct2, THEN conjunct2, THEN conjunct2, THEN conjunct1] pre by blast
  then have b: "length (filterAndLimit ?out False None) = 2"
    unfolding a by (simp add: sample_scores_def)
  have c: "obj_get (filterAndLimit ?out False (Some 1)) ''c/d'' = None"
    using inst [THEN conjunct1] by simp
  have cfg: "\<lparr>ttl = getTtlForTimeframe Day, timeframe = Day\<rparr> = day_config"
    by (simp add: day_config_def)
  have d: "fst (processResponse True True False (Some 1) ''enriched:day:0:1:no_errors'' Day True
          (Returns sample_scores) empty_store empty_store metadata_partial last_first [])
     = EnrichedResponse
         [(''e/f'', \<lparr>score = 1, info = Some (detailsUrl ''e/f''), error = None\<rparr>)]"
    using inst [THEN conjunct2, THEN conjunct2, THEN conjunct2, THEN conjunct2, THEN conjunct2]
    by (simp only: cfg a sample_limit)
  show ?thesis unfolding a using b c d by (simp only: simp_thms)
qed

subsection \<open>Fan-out dispatch client\<close>

lemma split_nl_nonempty: "split_nl s \<noteq> []"
  by (induction s) auto

lemma split_nl_no_newline: "newline \<notin> set s \<Longrightarrow> split_nl s = [s]"
  by (induction s) auto

lemma split_nl_line:
  "newline \<notin> set l \<Longrightarrow> split_nl (l @ newline # s) = l # split_nl s"
  by (induction l) auto

lemma last_split_nl_no_newline: "newline \<notin> set (last (split_nl s))"
proof (induction s)
  case Nil
  then show ?case by simp
next
  case (Cons c s)
  then show ?case
    using split_nl_nonempty [of s]
    by (cases "split_nl s") (auto split: if_splits)
qed

lemma split_nl_append:
  "split_nl (a @ b) = butlast (split_nl a) @ split_nl (last (split_nl a) @ b)"
proof (induction a)
  case Nil
  then show ?case by simp
next
  case (Cons c a)
  show ?case
  proof (cases "c = newline")
    case True
    then show ?thesis using Cons split_nl_nonempty [of a] by simp
  next
    case False
    show ?thesis
    proof (cases "split_nl a")
      case Nil
      then show ?thesis using split_nl_nonempty [of a] by simp
    next
      case (Cons l ls)
      note sa = this
      show ?thesis
      proof (cases ls)
        case Nil
        then show ?thesis using False sa Cons.IH by simp
      next
        case (Cons l' ls')
        then show ?thesis using False sa Cons.IH by simp
      qed
    qed
  qed
qed

lemma butlast_split_nl_append:
  "butlast (split_nl (a @ b)) = butlast (split_nl a) @ butlast (split_nl (last (split_nl a) @ b))"
  by (simp add: split_nl_append [of a b] butlast_append split_nl_nonempty)

lemma last_split_nl_append:
  "last (split_nl (a @ b)) = last (split_nl (last (split_nl a) @ b))"
  by (simp add: split_nl_append [of a b] split_nl_nonempty)

lemma process_lines_append:
  "process_lines parse (xs @ ys) st =
     (case process_lines parse xs st of Inl r \<Rightarrow> Inl r | Inr st' \<Rightarrow> process_lines parse ys st')"
proof (induction xs arbitrary: st)
  case Nil
  then show ?case by simp
next
  case (Cons x xs)
  obtain rb cr where st: "st = (rb, cr)" by (cases st)
  show ?case using Cons by (simp add: st split: option.splits)
qed

lemma read_loop_concat:
  assumes "newline \<notin> set buffer"
  shows "read_loop parse chunks buffer st =
         (case process_lines parse (butlast (split_nl (buffer @ concat chunks))) st of
            Inl r \<Rightarrow> Returns r
          | Inr st' \<Rightarrow> Throws ''Stream ended without complete result'')"
  using assms
proof (induction chunks arbitrary: buffer st)
  case Nil
  then show ?case by (simp add: split_nl_no_newline)
next
  case (Cons chunk chunks)
  let ?b = "buffer @ chunk"
  have split: "butlast (split_nl (buffer @ chunk @ concat chunks)) =
        butlast (split_nl ?b) @ butlast (split_nl (last (split_nl ?b) @ concat chunks))"
    using butlast_split_nl_append [of ?b "concat chunks"] by simp
  show ?case
  proof (cases "process_lines parse (butlast (split_nl ?b)) st")
    case (Inl r)
    then show ?thesis by (simp add: split process_lines_append Let_def)
  next
    case (Inr st')
    have "read_loop parse chunks (last (split_nl ?b)) st' =
         (case process_lines parse (butlast (split_nl (last (split_nl ?b) @ concat chunks))) st' of
            Inl r \<Rightarrow> Returns r
          | Inr st' \<Rightarrow> Throws ''Stream ended without complete result'')"
      by (rule Cons.IH) (rule last_split_nl_no_newline)
    then show ?thesis using Inr by (simp add: split process_lines_append Let_def)
  qed
qed

lemma read_loop_chunking:
  assumes "concat chunks' = concat chunks"
  shows "read_loop parse chunks' [] st = read_loop parse chunks [] st"
  using assms by (simp add: read_loop_concat)

lemma process_lines_parsed:
  "process_lines parse ls st = Inl r \<Longrightarrow> \<exists>payload. parse payload = Some r"
proof (induction ls arbitrary: st)
  case Nil
  then show ?case by simp
next
  case (Cons l ls)
  obtain rb cr where st: "st = (rb, cr)" by (cases st)
  show ?case using Cons by (auto simp: st split: if_splits option.splits)
qed

lemma read_loop_parsed:
  assumes "read_loop parse chunks [] st = Returns r"
  shows "\<exists>payload. parse payload = Some r"
  using assms process_lines_parsed [of parse "butlast (split_nl (concat chunks))" st r]
  by (simp add: read_loop_concat split: sum.splits)

lemma newline_not_in_lines:
  "newline \<notin> set (event_line ''update'')" "newline \<notin> set (event_line ''result'')"
  "newline \<notin> set p \<Longrightarrow> newline \<notin> set (data_line p)"
  by (simp_all add: newline_def event_line_def data_line_def)

lemma step_update:
  "process_lines parse (event_line ''update'' # ls) st = process_lines parse ls st"
proof -
  have "startsWith (event_line ''update'') ''event: ''"
    "trim (drop 7 (event_line ''update'')) \<noteq> ''result''"
    "\<not> startsWith (event_line ''update'') ''data: ''"
    by code_simp+
  then show ?thesis by (cases st) simp
qed

lemma step_result:
  "process_lines parse (event_line ''result'' # ls) (rb, cr) = process_lines parse ls (rb, True)"
proof -
  have "startsWith (event_line ''result'') ''event: ''"
    "trim (drop 7 (event_line ''result'')) = ''result''"
    by code_simp+
  then show ?thesis by simp
qed

lemma step_empty: "process_lines parse ([] # ls) st = process_lines parse ls st"
  by (cases st) (simp add: startsWith_def)

lemma step_data_idle:
  "process_lines parse (data_line p # ls) (rb, False) = process_lines parse ls (rb, False)"
  by (simp add: startsWith_def data_line_def)

lemma step_data_collecting:
  "process_lines parse (data_line p # ls) (rb, True) =
     (case parse (rb @ p) of
        Some array \<Rightarrow> Inl array
      | None \<Rightarrow> process_lines parse ls (rb @ p, True))"
proof -
  have "\<not> startsWith (data_line p) ''event: ''" "startsWith (data_line p) ''data: ''"
    "drop 6 (data_line p) = p"
    by (simp_all add: startsWith_def data_line_def)
  then show ?thesis by (simp split: option.splits)
qed

lemma split_nl_progress_event:
  assumes "newline \<notin> set text"
  shows "split_nl (progress_event text @ s) = event_line ''update'' # data_line text # [] # split_nl s"
  using split_nl_line [OF newline_not_in_lines(1), of "data_line text @ newline # newline # s"]
    split_nl_line [OF newline_not_in_lines(3) [OF assms], of "newline # s"]
  by (simp add: progress_event_def)

lemma split_nl_result_event:
  assumes "newline \<notin> set payload"
  shows "split_nl (result_event payload) = [event_line ''result'', data_line payload, [], []]"
    and "split_nl (event_line ''result'' @ newline # data_line payload)
         = [event_line ''result'', data_line payload]"
  using split_nl_line [OF newline_not_in_lines(2), of "data_line payload @ [newline, newline]"]
    split_nl_line [OF newline_not_in_lines(3) [OF assms], of "[newline]"]
    split_nl_line [OF newline_not_in_lines(2), of "data_line payload"]
    split_nl_no_newline [OF newline_not_in_lines(3) [OF assms]]
  by (simp_all add: result_event_def)

lemma split_nl_progress_events:
  assumes "\<forall>i. newline \<notin> set (progress i)"
  shows "split_nl (concat (map (\<lambda>i. progress_event (progress i)) js) @ s)
         = concat (map (\<lambda>i. [event_line ''update'', data_line (progress i), []]) js) @ split_nl s"
  using assms by (induction js) (simp_all add: split_nl_progress_event)

lemma process_progress_events:
  "process_lines parse
     (concat (map (\<lambda>i. [event_line ''update'', data_line (progress i), []]) js) @ rest) (rb, False)
   = process_lines parse rest (rb, False)"
  by (induction js)
    (simp_all add: step_update step_data_idle step_empty del: process_lines.simps(2))

lemma read_loop_complete_stream:
  assumes "parse payload = Some rs" and "newline \<notin> set payload"
    and "\<forall>i. newline \<notin> set (progress i)"
    and "concat chunks = concat (map (\<lambda>i. progress_event (progress i)) js) @ result_event payload"
  shows "read_loop parse chunks [] ([], False) = Returns rs"
proof -
  have "butlast (split_nl (concat chunks))
        = concat (map (\<lambda>i. [event_line ''update'', data_line (progress i), []]) js) @
          [event_line ''result'', data_line payload, []]"
    by (simp add: assms(4) split_nl_progress_events [OF assms(3)] split_nl_result_event(1) [OF assms(2)]
        butlast_append)
  moreover have "process_lines parse
          (concat (map (\<lambda>i. [event_line ''update'', data_line (progress i), []]) js) @
           [event_line ''result'', data_line payload, []]) ([], False) = Inl rs"
    using assms(1)
    by (simp add: process_progress_events step_result step_data_collecting
        del: process_lines.simps(2))
  ultimately show ?thesis by (simp add: read_loop_concat)
qed

lemma process_lines_prefix:
  assumes "process_lines parse (xs @ ys) st = Inr st'"
  shows "\<exists>st''. process_lines parse xs st = Inr st''"
  using assms by (cases "process_lines parse xs st") (simp_all add: process_lines_append)

lemma read_loop_truncated_stream:
  assumes "newline \<notin> set payload" and "\<forall>i. newline \<notin> set (progress i)"
    and "concat chunks = take n (concat (map (\<lambda>i. progress_event (progress i)) js) @
                                 event_line ''result'' @ [newline] @ data_line payload)"
  shows "read_loop parse chunks [] ([], False) = Throws ''Stream ended without complete result''"
proof -
  let ?X = "concat (map (\<lambda>i. progress_event (progress i)) js) @
              event_line ''result'' @ [newline] @ data_line payload"
  have "butlast (split_nl (take n ?X @ drop n ?X)) =
        butlast (split_nl (take n ?X)) @
        butlast (split_nl (last (split_nl (take n ?X)) @ drop n ?X))"
    by (rule butlast_split_nl_append)
  moreover have "butlast (split_nl ?X)
        = concat (map (\<lambda>i. [event_line ''update'', data_line (progress i), []]) js) @
           [event_line ''result'']"
    by (simp add: split_nl_progress_events [OF assms(2)] split_nl_result_event(2) [OF assms(1)]
        butlast_append)
  ultimately have pre: "butlast (split_nl (take n ?X)) @
        butlast (split_nl (last (split_nl (take n ?X)) @ drop n ?X))
        = concat (map (\<lambda>i. [event_line ''update'', data_line (progress i), []]) js) @
           [event_line ''result'']"
    by (simp only: append_take_drop_id)
  have "process_lines parse
          (concat (map (\<lambda>i. [event_line ''update'', data_line (progress i), []]) js) @
           [event_line ''result'']) ([], False) = Inr ([], True)"
    by (simp add: process_progress_events step_result del: process_lines.simps(2))
  then obtain st'' where "process_lines parse (butlast (split_nl (take n ?X))) ([], False) = Inr st''"
    using process_lines_prefix [of parse "butlast (split_nl (take n ?X))"
        "butlast (split_nl (last (split_nl (take n ?X)) @ drop n ?X))" "([], False)" "([], True)"]
    by (simp only: pre) blast
  then show ?thesis using assms(3) by (simp add: read_loop_concat)
qed

lemma dispatcher_stream_truncated:
  assumes "n + 2 \<le> length (dispatcher_stream perform encode progress requests)"
  shows "take n (dispatcher_stream perform encode progress requests)
         = take n (concat (map (\<lambda>i. progress_event (progress i)) [0..<length requests]) @
                   event_line ''result'' @ [newline] @ data_line (encode (map perform requests)))"
proof -
  let ?X = "concat (map (\<lambda>i. progress_event (progress i)) [0..<length requests]) @
              event_line ''result'' @ [newline] @ data_line (encode (map perform requests))"
  have eq: "dispatcher_stream perform encode progress requests = ?X @ [newline, newline]"
    by (simp add: dispatcher_stream_def result_event_def)
  then have "n \<le> length ?X" using assms by simp
  then have "take n (?X @ [newline, newline]) = take n ?X"
    by (simp only: take_append diff_is_0_eq' take_0 append_Nil2)
  then show ?thesis by (simp only: eq)
qed

text \<open>
  C9.  Let the dispatcher answer with its event stream (one progress event per item, then
  the final-result event whose payload parses to the array of the per-item outcomes, in
  the order of the input), cut into chunks in any way.  Then \<open>fetchEach\<close> returns exactly
  that array: one outcome per input item, in the original order.  If the stream ends
  before the line that carries the final payload is complete, \<open>fetchEach\<close> throws
  "Stream ended without complete result".  For every response whatsoever, a value that
  \<open>fetchEach\<close> returns is the array of a buffered payload that parsed, and the result
  does not depend on how the stream is cut into chunks.
\<close>

theorem C9_fetchEach_stream:
  assumes "parse (encode (map perform (map to_request_json items)))
             = Some (map perform (map to_request_json items))"
    and "newline \<notin> set (encode (map perform (map to_request_json items)))"
    and "\<forall>i. newline \<notin> set (progress i)"
  shows "(post (map to_request_json items) = HttpResponse True t0 (Some chunks) \<and>
          concat chunks = dispatcher_stream perform encode progress (map to_request_json items) \<longrightarrow>
            fetchEach parse post items = Returns (map perform (map to_request_json items)) \<and>
            (\<forall>r. fetchEach parse post items = Returns r \<longrightarrow>
                 length r = length items \<and>
                 (\<forall>i<length items. r ! i = perform (to_request_json (items ! i))))) \<and>
         (post (map to_request_json items) = HttpResponse True t0 (Some chunks) \<and>
          n + 2 \<le> length (dispatcher_stream perform encode progress (map to_request_json items)) \<and>
          concat chunks
            = take n (dispatcher_stream perform encode progress (map to_request_json items)) \<longrightarrow>
            fetchEach parse post items = Throws ''Stream ended without complete result'') \<and>
         (fetchEach parse post' items' = Returns r' \<longrightarrow> (\<exists>payload. parse payload = Some r')) \<and>
         (post1 (map to_request_json items') = HttpResponse True t1 (Some c1) \<and>
          post2 (map to_request_json items') = HttpResponse True t2 (Some c2) \<and>
          concat c1 = concat c2 \<longrightarrow>
            fetchEach parse post1 items' = fetchEach parse post2 items')"
proof -
  let ?reqs = "map to_request_json items"
  let ?rs = "map perform ?reqs"
  have 1: "fetchEach parse post items = Returns ?rs \<and>
            (\<forall>r. fetchEach parse post items = Returns r \<longrightarrow>
                 length r = length items \<and>
                 (\<forall>i<length items. r ! i = perform (to_request_json (items ! i))))"
    if "post ?reqs = HttpResponse True t0 (Some chunks)"
      and "concat chunks = dispatcher_stream perform encode progress ?reqs"
  proof -
    have "read_loop parse chunks [] ([], False) = Returns ?rs"
      using read_loop_complete_stream [where parse = parse
          and payload = "encode (map perform ?reqs)" and rs = ?rs and progress = progress
          and chunks = chunks and js = "[0..<length ?reqs]"] assms that(2)
      by (simp add: dispatcher_stream_def)
    then have "fetchEach parse post items = Returns ?rs"
      using that(1) by (simp add: fetchEach_def)
    then show ?thesis by simp
  qed
  have 2: "fetchEach parse post items = Throws ''Stream ended without complete result''"
    if "post ?reqs = HttpResponse True t0 (Some chunks)"
      and "n + 2 \<le> length (dispatcher_stream perform encode progress ?reqs)"
      and "concat chunks = take n (dispatcher_stream perform encode progress ?reqs)"
  proof -
    have "read_loop parse chunks [] ([], False) = Throws ''Stream ended without complete result''"
      using read_loop_truncated_stream [where parse = parse
          and payload = "encode (map perform ?reqs)" and progress = progress
          and chunks = chunks and n = n and js = "[0..<length ?reqs]"]
        assms that(3) dispatcher_stream_truncated [OF that(2)]
      by simp
    then show ?thesis using that(1) by (simp add: fetchEach_def)
  qed
  have 3: "fetchEach parse post' items' = Returns r' \<longrightarrow> (\<exists>payload. parse payload = Some r')"
    using read_loop_parsed [of parse _ "([], False)" r']
    by (auto simp: fetchEach_def Let_def split: stream_response.splits if_splits option.splits)
  have 4: "post1 (map to_request_json items') = HttpResponse True t1 (Some c1) \<and>
          post2 (map to_request_json items') = HttpResponse True t2 (Some c2) \<and>
          concat c1 = concat c2 \<longrightarrow>
            fetchEach parse post1 items' = fetchEach parse post2 items'"
    using read_loop_chunking [of c1 c2 parse "([], False)"]
    by (auto simp: fetchEach_def)
  show ?thesis using 1 2 3 4 by blast
qed

theorem C9_fetchEach_stream_witness:
  "fetchEach sample_parse sample_post [ItemUrl ''https://a.example'', ItemUrl ''https://b.example'']
     = Returns ''kk''"
proof -
  let ?items = "[ItemUrl ''https://a.example'', ItemUrl ''https://b.example'']"
  have rs: "map sample_perform (map to_request_json ?items) = ''kk''"
    by (simp add: sample_perform_def)
  have a: "sample_parse (sample_encode (map sample_perform (map to_request_json ?items)))
             = Some (map sample_perform (map to_request_json ?items))"
    unfolding rs by (simp add: sample_parse_def sample_encode_def)
  have b: "newline \<notin> set (sample_encode (map sample_perform (map to_request_json ?items)))"
    unfolding rs by (simp add: sample_encode_def newline_def)
  have c: "\<forall>i. newline \<notin> set (sample_progress i)"
    by (simp add: sample_progress_def newline_def)
  show ?thesis
    using a b c C9_fetchEach_stream [where parse = sample_parse and encode = sample_encode
        and perform = sample_perform and progress = sample_progress and items = ?items
        and post = sample_post and ?t0.0 = "[]"
        and chunks = "[take 20 (dispatcher_stream sample_perform sample_encode sample_progress
                                   (map to_request_json ?items)),
                       drop 20 (dispatcher_stream sample_perform sample_encode sample_progress
                                   (map to_request_json ?items))]",
        THEN conjunct1]
    unfolding rs by (simp add: sample_post_def)
qed


subsection \<open>Refresh scheduler\<close>

text \<open>
  C8.  With cutoff hour 1 UTC and buffer 30 minutes (the values of \<open>DEV_CONFIG\<close>): when the
  stored marker reads 00:50 UTC on another (the previous) day, the check made at 02:00 UTC
  forces a refresh; when the marker reads 01:45 UTC on the day of the check, it does not;
  and a marker whose UTC year, month or day differs from today's never counts as
  refreshed today, whatever hour and minute it records.
\<close>

theorem C8_refresh_marker:
  assumes "REPO_CACHE e = Some kv"
    and "kv (popularReposCacheKey DEV_CONFIG @ ''-last-refresh'') = Returns (Some (Some m))"
  shows "(utcHours now = 2 \<and> utcMinutes now = 0 \<and> \<not> isSameDay m now \<and>
            utcHours m = 0 \<and> utcMinutes m = 50 \<longrightarrow> shouldRefreshCache e now now) \<and>
         (utcHours now = 2 \<and> utcMinutes now = 0 \<and> isSameDay m now \<and>
            utcHours m = 1 \<and> utcMinutes m = 45 \<longrightarrow> \<not> shouldRefreshCache e now now) \<and>
         (\<not> isSameDay m now \<longrightarrow> \<not> hasRefreshedToday e now)"
  using assms
  by (simp add: shouldRefreshCache_def hasRefreshedToday_def isTimeToRefresh_def
      wasAfterRefreshTime_def DEV_CONFIG_def)

theorem C8_refresh_marker_witness:
  "shouldRefreshCache
     (env_with_marker \<lparr>utcFullYear = 2025, utcMonth = 2, utcDate = 1, utcHours = 0, utcMinutes = 50\<rparr>)
     \<lparr>utcFullYear = 2025, utcMonth = 2, utcDate = 2, utcHours = 2, utcMinutes = 0\<rparr>
     \<lparr>utcFullYear = 2025, utcMonth = 2, utcDate = 2, utcHours = 2, utcMinutes = 0\<rparr> \<and>
   \<not> shouldRefreshCache
     (env_with_marker \<lparr>utcFullYear = 2025, utcMonth = 2, utcDate = 2, utcHours = 1, utcMinutes = 45\<rparr>)
     \<lparr>utcFullYear = 2025, utcMonth = 2, utcDate = 2, utcHours = 2, utcMinutes = 0\<rparr>
     \<lparr>utcFullYear = 2025, utcMonth = 2, utcDate = 2, utcHours = 2, utcMinutes = 0\<rparr> \<and>
   \<not> hasRefreshedToday
     (env_with_marker \<lparr>utcFullYear = 2025, utcMonth = 2, utcDate = 1, utcHours = 23, utcMinutes = 59\<rparr>)
     \<lparr>utcFullYear = 2025, utcMonth = 2, utcDate = 2, utcHours = 2, utcMinutes = 0\<rparr>"
  using
    C8_refresh_marker [of
      "env_with_marker \<lparr>utcFullYear = 2025, utcMonth = 2, utcDate = 1, utcHours = 0, utcMinutes = 50\<rparr>"
      "\<lambda>k. Returns (Some (Some \<lparr>utcFullYear = 2025, utcMonth = 2, utcDate = 1, utcHours = 0, utcMinutes = 50\<rparr>))"
      "\<lparr>utcFullYear = 2025, utcMonth = 2, utcDate = 1, utcHours = 0, utcMinutes = 50\<rparr>"
      "\<lparr>utcFullYear = 2025, utcMonth = 2, utcDate = 2, utcHours = 2, utcMinutes = 0\<rparr>"]
    C8_refresh_marker [of
      "env_with_marker \<lparr>utcFullYear = 2025, utcMonth = 2, utcDate = 2, utcHours = 1, utcMinutes = 45\<rparr>"
      "\<lambda>k. Returns (Some (Some \<lparr>utcFullYear = 2025, utcMonth = 2, utcDate = 2, utcHours = 1, utcMinutes = 45\<rparr>))"
      "\<lparr>utcFullYear = 2025, utcMonth = 2, utcDate = 2, utcHours = 1, utcMinutes = 45\<rparr>"
      "\<lparr>utcFullYear = 2025, utcMonth = 2, utcDate = 2, utcHours = 2, utcMinutes = 0\<rparr>"]
    C8_refresh_marker [of
      "env_with_marker \<lparr>utcFullYear = 2025, utcMonth = 2, utcDate = 1, utcHours = 23, utcMinutes = 59\<rparr>"
      "\<lambda>k. Returns (Some (Some \<lparr>utcFullYear = 2025, utcMonth = 2, utcDate = 1, utcHours = 23, utcMinutes = 59\<rparr>))"
      "\<lparr>utcFullYear = 2025, utcMonth = 2, utcDate = 1, utcHours = 23, utcMinutes = 59\<rparr>"
      "\<lparr>utcFullYear = 2025, utcMonth = 2, utcDate = 2, utcHours = 2, utcMinutes = 0\<rparr>"]
  by (simp add: env_with_marker_def isSameDay_def)

text \<open>
  C10.  When the read of the refresh marker rejects with a store error,
  \<open>hasRefreshedToday\<close> answers false, so at every time of day at or past 01:30 UTC (the
  cutoff hour plus the buffer) \<open>shouldRefreshCache\<close> answers true: the refresh is forced.
\<close>

theorem C10_marker_read_failure_forces_refresh:
  assumes "REPO_CACHE e = Some kv"
    and "kv (popularReposCacheKey DEV_CONFIG @ ''-last-refresh'') = Throws msg"
  shows "\<not> hasRefreshedToday e now' \<and>
         (utcMinutes now < 60 \<and> 60 * utcHours now + utcMinutes now \<ge> 90
            \<longrightarrow> shouldRefreshCache e now now')"
  using assms
  by (auto simp add: shouldRefreshCache_def hasRefreshedToday_def isTimeToRefresh_def
      DEV_CONFIG_def)

theorem C10_marker_read_failure_forces_refresh_witness:
  "\<not> hasRefreshedToday (env_failing ''KV GET failed'')
       \<lparr>utcFullYear = 2025, utcMonth = 2, utcDate = 2, utcHours = 1, utcMinutes = 30\<rparr> \<and>
   shouldRefreshCache (env_failing ''KV GET failed'')
       \<lparr>utcFullYear = 2025, utcMonth = 2, utcDate = 2, utcHours = 1, utcMinutes = 30\<rparr>
       \<lparr>utcFullYear = 2025, utcMonth = 2, utcDate = 2, utcHours = 1, utcMinutes = 30\<rparr>"
  using C10_marker_read_failure_forces_refresh [of
      "env_failing ''KV GET failed''" "\<lambda>k. Throws ''KV GET failed''" "''KV GET failed''"
      "\<lparr>utcFullYear = 2025, utcMonth = 2, utcDate = 2, utcHours = 1, utcMinutes = 30\<rparr>"
      "\<lparr>utcFullYear = 2025, utcMonth = 2, utcDate = 2, utcHours = 1, utcMinutes = 30\<rparr>"]
  by (simp add: env_failing_def)

end
